theory Spec2Isabelle
  imports
    Main
    "HOL-Library.Char_ord"
    "HOL-Library.List_Lexorder"
    "HOL-Library.Product_Lexorder"
begin

section \<open>CreepDir: grouping the files of a directory tree by extension\<close>

text \<open>
  The program is one Python function, \<^verbatim>\<open>scan_folder_for_filetypes\<close> of
  \<^verbatim>\<open>creepdir.py\<close>. It asks for a folder, walks it with \<^verbatim>\<open>os.walk\<close>, files every
  relative path under the lowercased extension of its filename, and writes the groups,
  sorted, to \<^verbatim>\<open>output/FOLDERNAME.txt\<close> beside the script.

  A Python string is modelled by the bytes that stand for it in the file system, a
  \<^typ>\<open>string\<close>: for text, its UTF-8 encoding, and for a name that is not UTF-8, the
  bytes of the name as they are (Python reads them with \<^verbatim>\<open>surrogateescape\<close>). The
  separator and the period are single bytes that occur in no other character, so
  searching and cutting at them is the same on both sides, and strings that are UTF-8
  compare as their characters do. The functions of \<^verbatim>\<open>os.path\<close> are the POSIX ones
  (\<^verbatim>\<open>posixpath\<close>, separator \<^verbatim>\<open>/\<close>), written after their CPython definitions.
  \<^verbatim>\<open>str.lower\<close> follows the Unicode tables of the interpreter; it is a parameter
  of the model, \<open>str_lower\<close>.
\<close>

subsection \<open>String primitives\<close>

definition sep :: char where
  "sep = CHR ''/''"

definition extsep :: char where
  "extsep = CHR ''.''"

text \<open>\<^verbatim>\<open>p.rfind(c)\<close> for a one-character needle: the highest index holding \<open>c\<close>, or \<open>-1\<close>.\<close>

primrec rfind :: "string \<Rightarrow> char \<Rightarrow> int" where
  "rfind [] c = - 1"
| "rfind (x # xs) c =
     (let r = rfind xs c in if 0 \<le> r then r + 1 else if x = c then 0 else - 1)"

text \<open>The slice \<^verbatim>\<open>p[i:j]\<close> for indices that are not negative.\<close>

definition slice :: "string \<Rightarrow> int \<Rightarrow> int \<Rightarrow> string" where
  "slice p i j = take (nat j - nat i) (drop (nat i) p)"

text \<open>
  \<^verbatim>\<open>s.lower()\<close>. The lowering of a string is decided by the Unicode tables of the
  interpreter, character by character but for the capital sigma, which is lowered by
  what stands around it. The model takes it as the function \<open>str_lower\<close> on strings,
  of which it fixes nothing but that the empty string stays empty.
\<close>

definition lower :: "(string \<Rightarrow> string) \<Rightarrow> string \<Rightarrow> string" where
  "lower str_lower s = (if s = [] then [] else str_lower s)"




definition lower_chr :: "char \<Rightarrow> char" where
  "lower_chr c =
     (let n = (of_char c :: nat) in if 65 \<le> n \<and> n \<le> 90 then char_of (n + 32) else c)"


subsection \<open>\<^verbatim>\<open>os.path.splitext\<close>\<close>

text \<open>
  \<^verbatim>\<open>
  def _splitext(p, sep, altsep, extsep):
      sepIndex = p.rfind(sep)
      ...
      dotIndex = p.rfind(extsep)
      if dotIndex > sepIndex:
          # skip all leading dots
          filenameIndex = sepIndex + 1
          while filenameIndex < dotIndex:
              if p[filenameIndex:filenameIndex+1] != extsep:
                  return p[:dotIndex], p[dotIndex:]
              filenameIndex += 1
      return p, p[:0]
  \<close>
  The loop either returns the split at the last dot or falls through (\<open>None\<close>).
\<close>

function skip_leading_dots :: "string \<Rightarrow> int \<Rightarrow> int \<Rightarrow> (string \<times> string) option" where
  "skip_leading_dots p filenameIndex dotIndex =
     (if filenameIndex < dotIndex then
        (if slice p filenameIndex (filenameIndex + 1) \<noteq> [extsep]
         then Some (take (nat dotIndex) p, drop (nat dotIndex) p)
         else skip_leading_dots p (filenameIndex + 1) dotIndex)
      else None)"
  by pat_completeness auto
termination
  by (relation "measure (\<lambda>(p, filenameIndex, dotIndex). nat (dotIndex - filenameIndex))") auto

declare skip_leading_dots.simps [simp del]

definition splitext :: "string \<Rightarrow> string \<times> string" where
  "splitext p =
     (let sepIndex = rfind p sep;
          dotIndex = rfind p extsep
      in if dotIndex > sepIndex then
           (case skip_leading_dots p (sepIndex + 1) dotIndex of
              Some r \<Rightarrow> r
            | None \<Rightarrow> (p, []))
         else (p, []))"

text \<open>Line 17: \<^verbatim>\<open>ext = os.path.splitext(filename)[1].lower()\<close>.\<close>

definition ext_of :: "(string \<Rightarrow> string) \<Rightarrow> string \<Rightarrow> string" where
  "ext_of str_lower filename = lower str_lower (snd (splitext filename))"

subsection \<open>\<^verbatim>\<open>os.path\<close>: join, normpath, abspath, relpath, basename, dirname\<close>

datatype error =
    ValueError
  | IndexError
  | FileExistsError
  | FileNotFoundError
  | NotADirectoryError
  | IsADirectoryError
  | UnicodeEncodeError

definition startswith :: "string \<Rightarrow> string \<Rightarrow> bool" where
  "startswith s pre \<longleftrightarrow> take (length pre) s = pre"

definition endswith :: "string \<Rightarrow> string \<Rightarrow> bool" where
  "endswith s suf \<longleftrightarrow> length suf \<le> length s \<and> drop (length s - length suf) s = suf"

text \<open>
  \<^verbatim>\<open>
  def join(a, *p):
      path = a
      for b in p:
          if b.startswith(sep):
              path = b
          elif not path or path.endswith(sep):
              path += b
          else:
              path += sep + b
      return path
  \<close>
  \<open>join\<close> is one round of the loop, \<open>join_all\<close> the loop.
\<close>

definition join :: "string \<Rightarrow> string \<Rightarrow> string" where
  "join path b =
     (if startswith b [sep] then b
      else if path = [] \<or> endswith path [sep] then path @ b
      else path @ [sep] @ b)"

definition join_all :: "string \<Rightarrow> string list \<Rightarrow> string" where
  "join_all a p = foldl join a p"

text \<open>\<^verbatim>\<open>s.split(c)\<close> and \<^verbatim>\<open>s.join(words)\<close>.\<close>

fun split_from :: "char \<Rightarrow> string \<Rightarrow> string \<Rightarrow> string list" where
  "split_from c cur [] = [cur]"
| "split_from c cur (x # xs) =
     (if x = c then cur # split_from c [] xs else split_from c (cur @ [x]) xs)"

definition str_split :: "string \<Rightarrow> char \<Rightarrow> string list" where
  "str_split s c = split_from c [] s"

fun str_join :: "string \<Rightarrow> string list \<Rightarrow> string" where
  "str_join s [] = []"
| "str_join s [w] = w"
| "str_join s (w # v # ws) = w @ s @ str_join s (v # ws)"

text \<open>
  \<^verbatim>\<open>
  def normpath(path):
      if path == empty:
          return dot
      initial_slashes = path.startswith(sep)
      if (initial_slashes and
          path.startswith(sep*2) and not path.startswith(sep*3)):
          initial_slashes = 2
      comps = path.split(sep)
      new_comps = []
      for comp in comps:
          if comp in (empty, dot):
              continue
          if (comp != dotdot or (not initial_slashes and not new_comps) or
               (new_comps and new_comps[-1] == dotdot)):
              new_comps.append(comp)
          elif new_comps:
              new_comps.pop()
      comps = new_comps
      path = sep.join(comps)
      if initial_slashes:
          path = sep*initial_slashes + path
      return path or dot
  \<close>
\<close>

fun normpath_loop :: "nat \<Rightarrow> string list \<Rightarrow> string list \<Rightarrow> string list" where
  "normpath_loop initial_slashes new_comps [] = new_comps"
| "normpath_loop initial_slashes new_comps (comp' # comps) =
     (if comp' = [] \<or> comp' = ''.'' then normpath_loop initial_slashes new_comps comps
      else if comp' \<noteq> ''..'' \<or> (initial_slashes = 0 \<and> new_comps = [])
              \<or> (new_comps \<noteq> [] \<and> last new_comps = ''..'')
      then normpath_loop initial_slashes (new_comps @ [comp']) comps
      else if new_comps \<noteq> [] then normpath_loop initial_slashes (butlast new_comps) comps
      else normpath_loop initial_slashes new_comps comps)"

definition normpath :: "string \<Rightarrow> string" where
  "normpath path =
     (if path = [] then ''.''
      else
        let initial_slashes =
              (if startswith path [sep] then
                 (if startswith path [sep, sep] \<and> \<not> startswith path [sep, sep, sep]
                  then 2 else 1)
               else 0);
            comps = normpath_loop initial_slashes [] (str_split path sep);
            path' = replicate initial_slashes sep @ str_join [sep] comps
        in if path' = [] then ''.'' else path')"

definition isabs :: "string \<Rightarrow> bool" where
  "isabs s = startswith s [sep]"

text \<open>\<^verbatim>\<open>os.getcwd()\<close> is the parameter \<open>cwd\<close>.\<close>

definition abspath :: "string \<Rightarrow> string \<Rightarrow> string" where
  "abspath cwd path = normpath (if \<not> isabs path then join cwd path else path)"

text \<open>
  \<^verbatim>\<open>
  def commonprefix(m):
      s1 = min(m)
      s2 = max(m)
      for i, c in enumerate(s1):
          if c != s2[i]:
              return s1[:i]
      return s1
  \<close>
  Reading \<^verbatim>\<open>s2[i]\<close> beyond the end of \<open>s2\<close> raises \<^verbatim>\<open>IndexError\<close>.
\<close>

fun commonprefix_loop :: "'a list \<Rightarrow> 'a list \<Rightarrow> error + 'a list" where
  "commonprefix_loop [] s2 = Inr []"
| "commonprefix_loop (c # s1) [] = Inl IndexError"
| "commonprefix_loop (c # s1) (d # s2) =
     (if c \<noteq> d then Inr []
      else case commonprefix_loop s1 s2 of Inl e \<Rightarrow> Inl e | Inr pre \<Rightarrow> Inr (c # pre))"

definition commonprefix :: "string list \<Rightarrow> string list \<Rightarrow> error + string list" where
  "commonprefix a b = commonprefix_loop (min a b) (max a b)"

text \<open>
  \<^verbatim>\<open>
  def relpath(path, start=None):
      if not path:
          raise ValueError("no path specified")
      start_list = [x for x in abspath(start).split(sep) if x]
      path_list = [x for x in abspath(path).split(sep) if x]
      i = len(commonprefix([start_list, path_list]))
      rel_list = [pardir] * (len(start_list)-i) + path_list[i:]
      if not rel_list:
          return curdir
      return join(*rel_list)
  \<close>
\<close>

definition relpath :: "string \<Rightarrow> string \<Rightarrow> string \<Rightarrow> error + string" where
  "relpath cwd path start =
     (if path = [] then Inl ValueError
      else
        let start_list = filter (\<lambda>x. x \<noteq> []) (str_split (abspath cwd start) sep);
            path_list = filter (\<lambda>x. x \<noteq> []) (str_split (abspath cwd path) sep)
        in case commonprefix start_list path_list of
             Inl e \<Rightarrow> Inl e
           | Inr pre \<Rightarrow>
               let i = length pre;
                   rel_list = replicate (length start_list - i) ''..'' @ drop i path_list
               in (case rel_list of
                     [] \<Rightarrow> Inr ''.''
                   | a # p \<Rightarrow> Inr (join_all a p)))"

text \<open>\<^verbatim>\<open>s.rstrip(c)\<close>.\<close>

definition rstrip :: "string \<Rightarrow> char \<Rightarrow> string" where
  "rstrip s c = rev (dropWhile (\<lambda>x. x = c) (rev s))"

text \<open>
  \<^verbatim>\<open>
  def split(p):
      i = p.rfind(sep) + 1
      head, tail = p[:i], p[i:]
      if head and head != sep*len(head):
          head = head.rstrip(sep)
      return head, tail
  \<close>
  \<^verbatim>\<open>basename\<close> is the tail before any stripping, \<^verbatim>\<open>dirname\<close> the head.
\<close>

definition path_split :: "string \<Rightarrow> string \<times> string" where
  "path_split p =
     (let i = nat (rfind p sep + 1);
          head = take i p;
          tail = drop i p
      in (if head \<noteq> [] \<and> head \<noteq> replicate (length head) sep then rstrip head sep else head,
          tail))"

definition basename :: "string \<Rightarrow> string" where
  "basename p = drop (nat (rfind p sep + 1)) p"

definition dirname :: "string \<Rightarrow> string" where
  "dirname p = fst (path_split p)"

subsection \<open>\<^verbatim>\<open>os.walk\<close>\<close>

text \<open>
  What \<^verbatim>\<open>os.scandir\<close> finds under the selected folder is a tree: a directory lists
  named entries in the order the host reports them. A directory that cannot be listed
  is \<open>NoAccess\<close>; \<^verbatim>\<open>os.walk\<close>, called without \<^verbatim>\<open>onerror\<close>, passes over it silently.
  \<open>File\<close> is any entry that is not a directory.
\<close>

datatype node =
    File
  | NoAccess
  | Symlink node
  | Dir "(string \<times> node) list"

text \<open>\<^verbatim>\<open>entry.is_dir()\<close> follows symbolic links, \<^verbatim>\<open>os.path.islink\<close> does not.\<close>

fun is_dir :: "node \<Rightarrow> bool" where
  "is_dir File = False"
| "is_dir NoAccess = True"
| "is_dir (Symlink n) = is_dir n"
| "is_dir (Dir es) = True"

fun islink :: "node \<Rightarrow> bool" where
  "islink (Symlink n) = True"
| "islink n = False"

text \<open>
  \<^verbatim>\<open>
  def _walk(top, topdown, onerror, followlinks):
      dirs = []
      nondirs = []
      try:
          scandir_it = scandir(top)
      except OSError as error:
          return
      for entry in scandir_it:
          if entry.is_dir(): dirs.append(entry.name)
          else: nondirs.append(entry.name)
      yield top, dirs, nondirs
      for dirname in dirs:
          new_path = join(top, dirname)
          if followlinks or not islink(new_path):
              yield from _walk(new_path, topdown, onerror, followlinks)
  \<close>
  with \<^verbatim>\<open>topdown=True\<close>, \<^verbatim>\<open>followlinks=False\<close>.
\<close>

fun walk :: "string \<Rightarrow> node \<Rightarrow> (string \<times> string list \<times> string list) list" where
  "walk top' (Dir es) =
     (top', map fst (filter (\<lambda>e. is_dir (snd e)) es),
           map fst (filter (\<lambda>e. \<not> is_dir (snd e)) es))
     # concat (map (\<lambda>e. if is_dir (snd e) \<and> \<not> islink (snd e)
                         then walk (join top' (fst e)) (snd e) else []) es)"
| "walk top' (Symlink n) = walk top' n"
| "walk top' File = []"
| "walk top' NoAccess = []"

subsection \<open>The extension group table\<close>

text \<open>
  \<^verbatim>\<open>files_by_ext\<close> is a Python \<^verbatim>\<open>dict\<close>: keys are unique and kept in insertion order.
  Line 19, \<^verbatim>\<open>files_by_ext.setdefault(ext, []).append(rel_path)\<close>:
\<close>

type_synonym table = "(string \<times> string list) list"

fun setdefault_append :: "table \<Rightarrow> string \<Rightarrow> string \<Rightarrow> table" where
  "setdefault_append [] ext rel_path = [(ext, [rel_path])]"
| "setdefault_append ((k, paths) # rest) ext rel_path =
     (if k = ext then (k, paths @ [rel_path]) # rest
      else (k, paths) # setdefault_append rest ext rel_path)"

text \<open>Lines 16 to 19, the loop over the filenames of one directory.\<close>

fun for_filenames :: "(string \<Rightarrow> string) \<Rightarrow> string \<Rightarrow> string \<Rightarrow> string \<Rightarrow> string list \<Rightarrow> table
    \<Rightarrow> error + table" where
  "for_filenames str_lower cwd folder_selected dirpath [] files_by_ext = Inr files_by_ext"
| "for_filenames str_lower cwd folder_selected dirpath (filename # filenames) files_by_ext =
     (let ext = ext_of str_lower filename in
      case relpath cwd (join dirpath filename) folder_selected of
        Inl e \<Rightarrow> Inl e
      | Inr rel_path \<Rightarrow>
          for_filenames str_lower cwd folder_selected dirpath filenames
            (setdefault_append files_by_ext ext rel_path))"

text \<open>Line 15, the loop over the directories that \<^verbatim>\<open>os.walk\<close> yields.\<close>

fun for_walk :: "(string \<Rightarrow> string) \<Rightarrow> string \<Rightarrow> string
    \<Rightarrow> (string \<times> string list \<times> string list) list \<Rightarrow> table \<Rightarrow> error + table" where
  "for_walk str_lower cwd folder_selected [] files_by_ext = Inr files_by_ext"
| "for_walk str_lower cwd folder_selected ((dirpath, _, filenames) # rest) files_by_ext =
     (case for_filenames str_lower cwd folder_selected dirpath filenames files_by_ext of
        Inl e \<Rightarrow> Inl e
      | Inr files_by_ext' \<Rightarrow> for_walk str_lower cwd folder_selected rest files_by_ext')"

text \<open>Lines 14 to 19.\<close>

definition group_files :: "(string \<Rightarrow> string) \<Rightarrow> string \<Rightarrow> string \<Rightarrow> node \<Rightarrow> error + table" where
  "group_files str_lower cwd folder_selected tree =
     for_walk str_lower cwd folder_selected (walk folder_selected tree) []"

subsection \<open>The report\<close>

definition newline :: string where
  "newline = [CHR 0x0A]"

text \<open>
  The file object \<^verbatim>\<open>f\<close> is modelled by the text written through it so far;
  \<^verbatim>\<open>f.write(s)\<close> appends to it. First the text of the report, which is what the
  loops of lines 32 to 36 write when every write is accepted.
\<close>

definition f_write :: "string \<Rightarrow> string \<Rightarrow> string" where
  "f_write f s = f @ s"

text \<open>Lines 34 and 35.\<close>

fun write_paths :: "string list \<Rightarrow> string \<Rightarrow> string" where
  "write_paths [] f = f"
| "write_paths (path # paths) f = write_paths paths (f_write f (path @ newline))"

text \<open>Lines 32 to 36, the loop body run over the sorted items.\<close>

fun write_groups :: "table \<Rightarrow> string \<Rightarrow> string" where
  "write_groups [] f = f"
| "write_groups ((ext, paths) # items) f =
     write_groups items
       (f_write (write_paths paths (f_write f (''--- '' @ ext @ '' ---'' @ newline))) newline)"

text \<open>
  \<^verbatim>\<open>sorted(files_by_ext.items())\<close> sorts pairs of a string and a list of strings by
  Python's tuple order: lexicographic on the pair, on the list and on the characters.
\<close>

definition sorted_items :: "table \<Rightarrow> table" where
  "sorted_items files_by_ext = sort files_by_ext"

definition report :: "table \<Rightarrow> string" where
  "report files_by_ext = write_groups (sorted_items files_by_ext) []"

text \<open>
  The file is opened with \<^verbatim>\<open>encoding="utf-8"\<close>. A string that is not UTF-8 (a name
  with bytes that Python read as lone surrogates) cannot be encoded:
  \<^verbatim>\<open>f.write\<close> raises \<^verbatim>\<open>UnicodeEncodeError\<close> and writes nothing of it. \<open>utf8\<close> is the
  test of the decoder, on the values of the bytes.
\<close>

definition continuation :: "nat \<Rightarrow> bool" where
  "continuation b \<longleftrightarrow> 0x80 \<le> b \<and> b \<le> 0xBF"

fun utf8 :: "nat list \<Rightarrow> bool" where
  "utf8 [] = True"
| "utf8 (a # bs) =
     (if a < 0x80 then utf8 bs
      else if 0xC2 \<le> a \<and> a \<le> 0xDF then
        (case bs of b # r \<Rightarrow> continuation b \<and> utf8 r | _ \<Rightarrow> False)
      else if 0xE0 \<le> a \<and> a \<le> 0xEF then
        (case bs of
           b # c # r \<Rightarrow>
             (if a = 0xE0 then 0xA0 \<le> b \<and> b \<le> 0xBF
              else if a = 0xED then 0x80 \<le> b \<and> b \<le> 0x9F
              else continuation b)
             \<and> continuation c \<and> utf8 r
         | _ \<Rightarrow> False)
      else if 0xF0 \<le> a \<and> a \<le> 0xF4 then
        (case bs of
           b # c # d # r \<Rightarrow>
             (if a = 0xF0 then 0x90 \<le> b \<and> b \<le> 0xBF
              else if a = 0xF4 then 0x80 \<le> b \<and> b \<le> 0x8F
              else continuation b)
             \<and> continuation c \<and> continuation d \<and> utf8 r
         | _ \<Rightarrow> False)
      else False)"

definition encodable :: "string \<Rightarrow> bool" where
  "encodable s = utf8 (map of_char s)"

text \<open>
  The same loops with the writes that can fail. A failure ends the loops with the text
  written before it.
\<close>

definition f_write_checked :: "string \<Rightarrow> string \<Rightarrow> (error \<times> string) + string" where
  "f_write_checked f s =
     (if encodable s then Inr (f_write f s) else Inl (UnicodeEncodeError, f))"

fun write_paths_checked :: "string list \<Rightarrow> string \<Rightarrow> (error \<times> string) + string" where
  "write_paths_checked [] f = Inr f"
| "write_paths_checked (path # paths) f =
     (case f_write_checked f (path @ newline) of
        Inl x \<Rightarrow> Inl x
      | Inr f' \<Rightarrow> write_paths_checked paths f')"

fun write_groups_checked :: "table \<Rightarrow> string \<Rightarrow> (error \<times> string) + string" where
  "write_groups_checked [] f = Inr f"
| "write_groups_checked ((ext, paths) # items) f =
     (case f_write_checked f (''--- '' @ ext @ '' ---'' @ newline) of
        Inl x \<Rightarrow> Inl x
      | Inr f1 \<Rightarrow>
          (case write_paths_checked paths f1 of
             Inl x \<Rightarrow> Inl x
           | Inr f2 \<Rightarrow>
               (case f_write_checked f2 newline of
                  Inl x \<Rightarrow> Inl x
                | Inr f3 \<Rightarrow> write_groups_checked items f3)))"

subsection \<open>The world the program acts on\<close>

text \<open>
  The console, and the file system as far as the program writes to it: what is found at
  a path, keyed by the path string as the program passes it. A path holds a directory,
  a regular file with its content, or nothing.
\<close>

datatype fsnode = Directory | Regular string

record world =
  stdout :: string
  fs :: "string \<rightharpoonup> fsnode"

text \<open>
  An operation on the world returns the new world, or raises: then the result is the
  error with the world as the operation left it.
\<close>

type_synonym outcome = "(error \<times> world) + world"

definition print :: "string \<Rightarrow> world \<Rightarrow> world" where
  "print s w = w\<lparr>stdout := stdout w @ s @ newline\<rparr>"

definition path_exists :: "world \<Rightarrow> string \<Rightarrow> bool" where
  "path_exists w p \<longleftrightarrow> fs w p \<noteq> None"

definition isdir :: "world \<Rightarrow> string \<Rightarrow> bool" where
  "isdir w p \<longleftrightarrow> fs w p = Some Directory"

text \<open>
  The two halves of a path as \<^verbatim>\<open>os.makedirs\<close> takes them: \<^verbatim>\<open>split(name)\<close>, and
  \<^verbatim>\<open>split(head)\<close> when the tail is empty.
\<close>

definition head_tail :: "string \<Rightarrow> string \<times> string" where
  "head_tail name =
     (let (head, tail) = path_split name
      in if tail = [] then path_split head else (head, tail))"

text \<open>
  \<^verbatim>\<open>os.mkdir(name)\<close>: the path must not exist, and the directory it is created in must.
  An empty parent is the current directory.
\<close>

definition mkdir :: "string \<Rightarrow> world \<Rightarrow> outcome" where
  "mkdir name w =
     (let parent = fst (head_tail name)
      in if path_exists w name then Inl (FileExistsError, w)
         else if parent = [] \<or> isdir w parent
         then Inr (w\<lparr>fs := (fs w)(name \<mapsto> Directory)\<rparr>)
         else if path_exists w parent then Inl (NotADirectoryError, w)
         else Inl (FileNotFoundError, w))"

text \<open>
  \<^verbatim>\<open>
  def makedirs(name, mode=0o777, exist_ok=False):
      head, tail = path.split(name)
      if not tail:
          head, tail = path.split(head)
      if head and tail and not path.exists(head):
          try:
              makedirs(head, exist_ok=exist_ok)
          except FileExistsError:
              pass
          if tail == curdir:
              return
      try:
          mkdir(name, mode)
      except OSError:
          if not exist_ok or not path.isdir(name):
              raise
  \<close>
  called with \<^verbatim>\<open>exist_ok=True\<close>.
\<close>

definition mkdir_exist_ok :: "string \<Rightarrow> world \<Rightarrow> outcome" where
  "mkdir_exist_ok name w =
     (case mkdir name w of
        Inl (e, w') \<Rightarrow> if \<not> isdir w' name then Inl (e, w') else Inr w'
      | Inr w' \<Rightarrow> Inr w')"

lemma length_rstrip_le: "length (rstrip s c) \<le> length s"
  unfolding rstrip_def using length_dropWhile_le [of "\<lambda>x. x = c" "rev s"] by simp

lemma path_split_shorter:
  assumes "path_split p = (head, tail)" and "tail \<noteq> []"
  shows "length head < length p"
proof -
  let ?i = "nat (rfind p sep + 1)"
  from assms have t: "tail = drop ?i p"
    by (auto simp: path_split_def Let_def)
  with assms(2) have "?i < length p" by simp
  moreover from assms(1) have "length head \<le> length (take ?i p)"
    using length_rstrip_le [of "take ?i p" sep]
    by (auto simp: path_split_def Let_def split: if_splits)
  ultimately show ?thesis by simp
qed

lemma path_split_not_longer:
  assumes "path_split p = (head, tail)"
  shows "length head \<le> length p"
proof -
  let ?i = "nat (rfind p sep + 1)"
  from assms have "length head \<le> length (take ?i p)"
    using length_rstrip_le [of "take ?i p" sep]
    by (auto simp: path_split_def Let_def split: if_splits)
  then show ?thesis by simp
qed

lemma head_tail_shorter:
  assumes "head_tail name = (head, tail)" and "tail \<noteq> []"
  shows "length head < length name"
proof (cases "snd (path_split name) = []")
  case True
  obtain h t where ht: "path_split name = (h, t)" by (cases "path_split name")
  with True assms(1) have "path_split h = (head, tail)" by (simp add: head_tail_def)
  then have "length head < length h" using assms(2) by (rule path_split_shorter)
  moreover have "length h \<le> length name" using ht by (rule path_split_not_longer)
  ultimately show ?thesis by simp
next
  case False
  with assms(1) have "path_split name = (head, tail)"
    by (auto simp: head_tail_def split: prod.splits)
  then show ?thesis using assms(2) by (rule path_split_shorter)
qed

function makedirs :: "string \<Rightarrow> world \<Rightarrow> outcome" where
  "makedirs name w =
     (case head_tail name of (head, tail) \<Rightarrow>
        if head \<noteq> [] \<and> tail \<noteq> [] \<and> \<not> path_exists w head then
          (case makedirs head w of
             Inl (e, w') \<Rightarrow>
               if e = FileExistsError
               then (if tail = ''.'' then Inr w' else mkdir_exist_ok name w')
               else Inl (e, w')
           | Inr w' \<Rightarrow> if tail = ''.'' then Inr w' else mkdir_exist_ok name w')
        else mkdir_exist_ok name w)"
  by pat_completeness auto
termination
  by (relation "measure (\<lambda>(name, w). length name)") (auto dest: head_tail_shorter [OF sym])

declare makedirs.simps [simp del]

text \<open>
  \<^verbatim>\<open>open(output_path, "w", encoding="utf-8")\<close> creates the file or truncates it. It fails
  on a directory and where the directory of the path does not exist.
\<close>

definition open_w :: "string \<Rightarrow> world \<Rightarrow> outcome" where
  "open_w path w =
     (let parent = fst (path_split path)
      in if isdir w path then Inl (IsADirectoryError, w)
         else if parent = [] \<or> isdir w parent
         then Inr (w\<lparr>fs := (fs w)(path \<mapsto> Regular [])\<rparr>)
         else if path_exists w parent then Inl (NotADirectoryError, w)
         else Inl (FileNotFoundError, w))"

text \<open>
  Leaving the \<^verbatim>\<open>with\<close> block closes the file, also when a write has raised: the text
  written through \<^verbatim>\<open>f\<close> is put behind what the file holds, which is nothing after
  \<open>open_w\<close>.
\<close>

definition content_at :: "world \<Rightarrow> string \<Rightarrow> string" where
  "content_at w path = (case fs w path of Some (Regular old) \<Rightarrow> old | _ \<Rightarrow> [])"

definition close_file :: "string \<Rightarrow> string \<Rightarrow> world \<Rightarrow> world" where
  "close_file path f w = w\<lparr>fs := (fs w)(path \<mapsto> Regular (content_at w path @ f))\<rparr>"

text \<open>Lines 31 to 36, the report-writing step.\<close>

definition write_results :: "string \<Rightarrow> table \<Rightarrow> world \<Rightarrow> outcome" where
  "write_results output_path files_by_ext w =
     (case open_w output_path w of
        Inl x \<Rightarrow> Inl x
      | Inr w' \<Rightarrow>
          (case write_groups_checked (sorted_items files_by_ext) [] of
             Inl (e, f) \<Rightarrow> Inl (e, close_file output_path f w')
           | Inr f \<Rightarrow> Inr (close_file output_path f w')))"

subsection \<open>\<^verbatim>\<open>scan_folder_for_filetypes\<close>\<close>

text \<open>
  \<^verbatim>\<open>filedialog.askdirectory\<close> returns the chosen path, or, when the dialog is cancelled,
  an empty string or an empty tuple. What the run reads from outside is collected in
  \<open>env\<close>: the answer of the dialog, the tree found under the chosen folder,
  \<^verbatim>\<open>__file__\<close>, \<^verbatim>\<open>os.getcwd()\<close> and the \<^verbatim>\<open>str.lower\<close> of the interpreter (\<open>lowering\<close>). The
  window toolkit of lines 6 and 7 is not part of the world: the run is followed from the
  answer of the dialog on. The console takes any text.
\<close>

datatype picked = EmptyTuple | Str string

record env =
  askdirectory :: picked
  listing :: node
  script_file :: string
  getcwd :: string
  lowering :: "string \<Rightarrow> string"

definition script_dir_of :: "env \<Rightarrow> string" where
  "script_dir_of ev = dirname (abspath (getcwd ev) (script_file ev))"

definition output_dir_of :: "env \<Rightarrow> string" where
  "output_dir_of ev = join (script_dir_of ev) ''output''"

definition output_path_of :: "env \<Rightarrow> string \<Rightarrow> string" where
  "output_path_of ev folder_selected =
     join (output_dir_of ev) (basename folder_selected @ ''.txt'')"

text \<open>Lines 13 to 38, reached with a folder that is not empty.\<close>

definition scan_selected :: "env \<Rightarrow> string \<Rightarrow> world \<Rightarrow> outcome" where
  "scan_selected ev folder_selected w =
     (case group_files (lowering ev) (getcwd ev) folder_selected (listing ev) of
        Inl e \<Rightarrow> Inl (e, w)
      | Inr files_by_ext \<Rightarrow>
          let script_dir = dirname (abspath (getcwd ev) (script_file ev));
              output_dir = join script_dir ''output''
          in (case makedirs output_dir w of
                Inl x \<Rightarrow> Inl x
              | Inr w1 \<Rightarrow>
                  let folder_name = basename folder_selected;
                      output_path = join output_dir (folder_name @ ''.txt'')
                  in (case write_results output_path files_by_ext w1 of
                        Inl x \<Rightarrow> Inl x
                      | Inr w2 \<Rightarrow> Inr (print (''Saved to: '' @ output_path) w2))))"

text \<open>Lines 8 to 11, then the rest.\<close>

definition scan_folder_for_filetypes :: "env \<Rightarrow> world \<Rightarrow> outcome" where
  "scan_folder_for_filetypes ev w =
     (case askdirectory ev of
        EmptyTuple \<Rightarrow> Inr (print ''No folder selected.'' w)
      | Str folder_selected \<Rightarrow>
          if folder_selected = [] then Inr (print ''No folder selected.'' w)
          else scan_selected ev folder_selected w)"

subsection \<open>The statements of the specification\<close>

text \<open>
  The extension as the specification words it: the substring of the filename from the
  last period onward, lowercased; the empty string if there is no period.
\<close>

definition spec_extension :: "(string \<Rightarrow> string) \<Rightarrow> string \<Rightarrow> string" where
  "spec_extension str_lower filename =
     (if extsep \<in> set filename
      then lower str_lower (drop (nat (rfind filename extsep)) filename)
      else [])"

text \<open>
  The files the traversal visits, as the pairs of \<^verbatim>\<open>dirpath\<close> and \<^verbatim>\<open>filename\<close> that the
  two loops of lines 15 and 16 run through, in that order; and the relative path that
  line 18 computes for such a pair.
\<close>

definition enumerated :: "string \<Rightarrow> node \<Rightarrow> (string \<times> string) list" where
  "enumerated folder_selected tree =
     concat (map (\<lambda>(dirpath, dirnames, filenames). map (Pair dirpath) filenames)
                 (walk folder_selected tree))"

definition rel_path_of :: "string \<Rightarrow> string \<Rightarrow> string \<times> string \<Rightarrow> error + string" where
  "rel_path_of cwd folder_selected visited =
     relpath cwd (join (fst visited) (snd visited)) folder_selected"

text \<open>The group of a key: \<^verbatim>\<open>files_by_ext.get(ext, [])\<close>.\<close>

definition group_of :: "table \<Rightarrow> string \<Rightarrow> string list" where
  "group_of files_by_ext ext =
     (case map_of files_by_ext ext of None \<Rightarrow> [] | Some paths \<Rightarrow> paths)"








text \<open>
  The names \<^verbatim>\<open>os.scandir\<close> can report: not empty, without a separator, and neither
  \<^verbatim>\<open>.\<close> nor \<^verbatim>\<open>..\<close>. A tree is plain when every name in it is.
\<close>

definition plain_name :: "string \<Rightarrow> bool" where
  "plain_name name \<longleftrightarrow> name \<noteq> [] \<and> sep \<notin> set name \<and> name \<noteq> ''.'' \<and> name \<noteq> ''..''"



text \<open>
  The report as the specification words it: for each key in ascending order, a header
  line, the paths of the group one per line, and a blank line.
\<close>

definition spec_block :: "string \<Rightarrow> string list \<Rightarrow> string" where
  "spec_block ext paths =
     ''--- '' @ ext @ '' ---'' @ newline @ concat (map (\<lambda>path. path @ newline) paths) @ newline"


text \<open>
  When the run can write its report. The directory of the script is reached from a
  directory \<open>base\<close> that exists by going down through the names \<open>ds\<close>, \<open>ds\<close> being empty
  when the directory of the script exists itself; no path on the way from \<open>base\<close> to
  the output directory is a regular file; and the path of the report is not a
  directory. \<open>chain base ds\<close> lists the paths on the way. A path is \<open>tidy\<close> when it is
  not empty and ends with a separator only if it consists of separators.
\<close>

definition tidy :: "string \<Rightarrow> bool" where
  "tidy p \<longleftrightarrow> p \<noteq> [] \<and> (\<not> endswith p [sep] \<or> p = replicate (length p) sep)"

fun chain :: "string \<Rightarrow> string list \<Rightarrow> string list" where
  "chain base [] = []"
| "chain base (d # ds) = join base d # chain (join base d) ds"

definition not_regular :: "world \<Rightarrow> string \<Rightarrow> bool" where
  "not_regular w p \<longleftrightarrow> fs w p = None \<or> fs w p = Some Directory"

text \<open>
  In a file system a path exists only under a directory that exists. \<open>parents_first\<close>
  says so of a list of paths each of which lies in the one before it.
\<close>

fun parents_first :: "world \<Rightarrow> string list \<Rightarrow> bool" where
  "parents_first w [] = True"
| "parents_first w [p] = True"
| "parents_first w (p # q # ps) = ((fs w q \<noteq> None \<longrightarrow> fs w p \<noteq> None) \<and> parents_first w (q # ps))"

text \<open>
  The strings that the loops of lines 32 to 36 write for a table are all UTF-8, so that
  no write fails.
\<close>

definition encodable_table :: "table \<Rightarrow> bool" where
  "encodable_table files_by_ext \<longleftrightarrow>
     (\<forall>(ext, paths) \<in> set files_by_ext.
        encodable (''--- '' @ ext @ '' ---'' @ newline)
        \<and> (\<forall>path \<in> set paths. encodable (path @ newline)))"



text \<open>
  A file can be opened for writing at a path that is not a directory and that lies in
  the current directory or in a directory that exists.
\<close>

definition can_open :: "world \<Rightarrow> string \<Rightarrow> bool" where
  "can_open w path \<longleftrightarrow>
     \<not> isdir w path \<and> (fst (path_split path) = [] \<or> isdir w (fst (path_split path)))"

definition can_write_report :: "env \<Rightarrow> string \<Rightarrow> world \<Rightarrow> string \<Rightarrow> string list \<Rightarrow> bool" where
  "can_write_report ev folder_selected w base ds \<longleftrightarrow>
     script_dir_of ev = foldl join base ds
     \<and> tidy base \<and> fs w base = Some Directory
     \<and> (\<forall>d \<in> set ds. plain_name d)
     \<and> (\<forall>p \<in> set (chain base (ds @ [''output''])). not_regular w p)
     \<and> fs w (output_path_of ev folder_selected) \<noteq> Some Directory"

text \<open>
  What creating directories may change: the console is untouched, and a path holds what
  it held, unless it is one of the given paths, held nothing, and is a directory now.
\<close>

definition only_dirs_added :: "world \<Rightarrow> world \<Rightarrow> string list \<Rightarrow> bool" where
  "only_dirs_added w w' ps \<longleftrightarrow>
     stdout w' = stdout w
     \<and> (\<forall>p. fs w' p = fs w p \<or> (p \<in> set ps \<and> fs w p = None \<and> fs w' p = Some Directory))"

subsection \<open>Auxiliary notions of the proofs\<close>

text \<open>What lines 17 to 19 do to the table for one visited file.\<close>

definition record_file :: "(string \<Rightarrow> string) \<Rightarrow> string \<Rightarrow> string \<Rightarrow> string \<times> string \<Rightarrow> table
    \<Rightarrow> table" where
  "record_file str_lower cwd folder_selected visited files_by_ext =
     (case rel_path_of cwd folder_selected visited of
        Inl e \<Rightarrow> files_by_ext
      | Inr rel_path \<Rightarrow>
          setdefault_append files_by_ext (ext_of str_lower (snd visited)) rel_path)"

text \<open>One round of the loop of \<^verbatim>\<open>normpath\<close>, and the components of an absolute path.\<close>

definition normpath_step :: "nat \<Rightarrow> string list \<Rightarrow> string \<Rightarrow> string list" where
  "normpath_step i acc x =
     (if x = [] \<or> x = ''.'' then acc
      else if x \<noteq> ''..'' \<or> (i = 0 \<and> acc = []) \<or> (acc \<noteq> [] \<and> last acc = ''..'')
      then acc @ [x]
      else if acc \<noteq> [] then butlast acc else acc)"


section \<open>Properties\<close>

subsection \<open>Finding the last occurrence of a character\<close>

lemma rfind_ge: "- 1 \<le> rfind p c"
  by (induction p) (auto simp: Let_def)

lemma rfind_lt: "rfind p c < int (length p)"
  by (induction p) (auto simp: Let_def)

lemma rfind_neg_iff: "rfind p c < 0 \<longleftrightarrow> c \<notin> set p"
  by (induction p) (auto simp: Let_def)

lemma rfind_absent: "c \<notin> set p \<Longrightarrow> rfind p c = - 1"
  using rfind_neg_iff [of p c] rfind_ge [of p c] by linarith

lemma rfind_present: "c \<in> set p \<Longrightarrow> 0 \<le> rfind p c"
  using rfind_neg_iff [of p c] by linarith

text \<open>The index found holds the character, and nothing behind it does.\<close>

lemma rfind_split:
  "0 \<le> rfind p c \<Longrightarrow>
     drop (nat (rfind p c)) p = c # drop (Suc (nat (rfind p c))) p
     \<and> c \<notin> set (drop (Suc (nat (rfind p c))) p)"
proof (induction p)
  case Nil
  then show ?case by simp
next
  case (Cons x xs)
  show ?case
  proof (cases "0 \<le> rfind xs c")
    case True
    then have "nat (rfind xs c + 1) = Suc (nat (rfind xs c))" by simp
    with True Cons.IH show ?thesis by (simp add: Let_def)
  next
    case False
    with Cons.prems have "x = c" by (simp add: Let_def split: if_splits)
    moreover from False have "c \<notin> set xs" using rfind_neg_iff [of xs c] by simp
    ultimately show ?thesis using False by (simp add: Let_def)
  qed
qed

subsection \<open>The extension of a filename\<close>

text \<open>
  The loop of \<^verbatim>\<open>_splitext\<close> returns the split exactly when some character between
  \<open>filenameIndex\<close> and \<open>dotIndex\<close> is not a period.
\<close>

lemma skip_leading_dots_char:
  "0 \<le> i \<Longrightarrow> d \<le> int (length p) \<Longrightarrow>
   skip_leading_dots p i d =
     (if \<exists>c \<in> set (slice p i d). c \<noteq> extsep
      then Some (take (nat d) p, drop (nat d) p) else None)"
proof (induction p i d rule: skip_leading_dots.induct)
  case (1 p i d)
  show ?case
  proof (cases "i < d")
    case False
    then have "slice p i d = []" by (simp add: slice_def)
    with False show ?thesis by (subst skip_leading_dots.simps) simp
  next
    case True
    with "1.prems" have lt: "nat i < length p" by linarith
    have one: "slice p i (i + 1) = [p ! nat i]"
      using lt "1.prems"(1)
      by (simp add: slice_def nat_add_distrib take_Suc_conv_app_nth
          Cons_nth_drop_Suc [symmetric])
    have "nat d - nat i = Suc (nat d - nat (i + 1))"
      using True "1.prems"(1) by linarith
    then have dec: "slice p i d = p ! nat i # slice p (i + 1) d"
      using lt "1.prems"(1)
      by (simp add: slice_def nat_add_distrib Cons_nth_drop_Suc [symmetric])
    show ?thesis
    proof (cases "p ! nat i = extsep")
      case False
      with True one dec show ?thesis by (subst skip_leading_dots.simps) auto
    next
      case isdot: True
      have "skip_leading_dots p i d = skip_leading_dots p (i + 1) d"
        using True one isdot by (subst skip_leading_dots.simps) simp
      also have "\<dots> =
          (if \<exists>c \<in> set (slice p (i + 1) d). c \<noteq> extsep
           then Some (take (nat d) p, drop (nat d) p) else None)"
        using "1.IH" True one isdot "1.prems" by simp
      finally show ?thesis using dec isdot by simp
    qed
  qed
qed

lemma snd_splitext_filename:
  assumes "sep \<notin> set name"
  shows "snd (splitext name) =
     (if \<exists>c \<in> set (take (nat (rfind name extsep)) name). c \<noteq> extsep
      then drop (nat (rfind name extsep)) name else [])"
proof -
  have s: "rfind name sep = - 1" using assms by (rule rfind_absent)
  show ?thesis
  proof (cases "0 \<le> rfind name extsep")
    case False
    then have "rfind name extsep = - 1" using rfind_ge [of name extsep] by linarith
    then show ?thesis by (simp add: splitext_def s)
  next
    case True
    have "rfind name extsep \<le> int (length name)" using rfind_lt [of name extsep] by simp
    then have "skip_leading_dots name 0 (rfind name extsep) =
      (if \<exists>c \<in> set (slice name 0 (rfind name extsep)). c \<noteq> extsep
       then Some (take (nat (rfind name extsep)) name, drop (nat (rfind name extsep)) name)
       else None)"
      by (intro skip_leading_dots_char) simp_all
    moreover have "slice name 0 (rfind name extsep) = take (nat (rfind name extsep)) name"
      by (simp add: slice_def)
    ultimately show ?thesis using True by (simp add: splitext_def s Let_def)
  qed
qed

lemma lower_Nil [simp]: "lower str_lower [] = []"
  by (simp add: lower_def)

text \<open>
  Claim C1, as the specification states it: for every enumerated filename the grouping
  key is the substring from the last period onward, lowercased, or the empty string if
  the filename has no period. The code does not do this for a filename whose last
  period has only periods before it: \<^verbatim>\<open>.gitignore\<close> has a period, and its key is
  empty. The name is ASCII without a capital, and \<^verbatim>\<open>str.lower\<close> leaves such text as
  it is.
\<close>

theorem ext_of_gitignore_not_spec:
  "ext_of (map lower_chr) ''.gitignore'' = []
   \<and> spec_extension (map lower_chr) ''.gitignore'' = ''.gitignore''"
  by code_simp

text \<open>
  Claim C1, amended: for every enumerated filename (a name without a path separator),
  the grouping key is the substring from the last period onward, lowercased, when some
  character other than a period stands before that last period; otherwise (no period,
  or only periods before the last one) the key is the empty string.
\<close>

theorem ext_of_filename:
  assumes "sep \<notin> set filename"
  shows "ext_of str_lower filename =
     (if \<exists>c \<in> set (take (nat (rfind filename extsep)) filename). c \<noteq> extsep
      then spec_extension str_lower filename else [])"
proof (cases "\<exists>c \<in> set (take (nat (rfind filename extsep)) filename). c \<noteq> extsep")
  case False
  then show ?thesis using snd_splitext_filename [OF assms] by (simp add: ext_of_def)
next
  case True
  then have "take (nat (rfind filename extsep)) filename \<noteq> []" by auto
  then have "0 < rfind filename extsep" by (cases "0 < rfind filename extsep") simp_all
  then have "extsep \<in> set filename" using rfind_neg_iff [of filename extsep] by auto
  with True show ?thesis
    using snd_splitext_filename [OF assms] by (simp add: ext_of_def spec_extension_def)
qed

theorem ext_of_filename_witness:
  "sep \<notin> set ''a.TXT'' \<and> ext_of (map lower_chr) ''a.TXT'' = ''.txt''
   \<and> spec_extension (map lower_chr) ''a.TXT'' = ''.txt''
   \<and> sep \<notin> set ''..rc'' \<and> ext_of (map lower_chr) ''..rc'' = []"
proof -
  have a: "sep \<notin> set ''a.TXT''" and b: "sep \<notin> set ''..rc''" by code_simp+
  have c: "spec_extension (map lower_chr) ''a.TXT'' = ''.txt''" by code_simp
  have d: "(\<exists>c \<in> set (take (nat (rfind ''a.TXT'' extsep)) ''a.TXT''). c \<noteq> extsep) = True"
    by code_simp
  have e: "(\<exists>c \<in> set (take (nat (rfind ''..rc'' extsep)) ''..rc''). c \<noteq> extsep) = False"
    by code_simp
  show ?thesis
    using ext_of_filename [OF a, of "map lower_chr"] ext_of_filename [OF b, of "map lower_chr"]
      a b c
    unfolding d e by simp
qed

text \<open>
  Claim C9: for every filename that begins with a period and contains no other period
  (such as \<^verbatim>\<open>.gitignore\<close>), the grouping key is the empty string: the key of the
  same name without its period, an extensionless file, and not the filename itself.
\<close>

theorem ext_of_dotfile:
  assumes "extsep \<notin> set rest"
  shows "ext_of str_lower (extsep # rest) = [] \<and> ext_of str_lower rest = []
     \<and> ext_of str_lower (extsep # rest) \<noteq> extsep # rest"
proof -
  have dot: "rfind (extsep # rest) extsep = 0"
    using rfind_absent [OF assms] by simp
  have "skip_leading_dots (extsep # rest) 0 0 = None"
    by (subst skip_leading_dots.simps) simp
  moreover have "- 1 \<le> rfind (extsep # rest) sep" by (rule rfind_ge)
  ultimately have "snd (splitext (extsep # rest)) = []"
    unfolding splitext_def Let_def dot
    by (cases "rfind (extsep # rest) sep = - 1") auto
  moreover have "snd (splitext rest) = []"
    using rfind_absent [OF assms] rfind_ge [of rest sep]
    by (simp add: splitext_def Let_def)
  ultimately show ?thesis by (simp add: ext_of_def)
qed

theorem ext_of_dotfile_witness:
  "extsep \<notin> set ''gitignore'' \<and> ext_of (map lower_chr) (extsep # ''gitignore'') = []"
proof -
  have a: "extsep \<notin> set ''gitignore''" by code_simp
  show ?thesis using ext_of_dotfile [OF a, of "map lower_chr"] a by simp
qed

subsection \<open>Case and the key\<close>


lemma of_char_lower_chr:
  "(of_char (lower_chr c) :: nat) =
     (if 65 \<le> (of_char c :: nat) \<and> (of_char c :: nat) \<le> 90 then of_char c + 32 else of_char c)"
  by (simp add: lower_chr_def Let_def)


lemma lower_chr_eq_iff:
  assumes "(of_char c :: nat) < 65"
  shows "lower_chr x = c \<longleftrightarrow> x = c"
proof -
  have "lower_chr x = c \<longleftrightarrow> (of_char (lower_chr x) :: nat) = of_char c" by simp
  also have "\<dots> \<longleftrightarrow> (of_char x :: nat) = of_char c"
    using assms by (auto simp: of_char_lower_chr)
  also have "\<dots> \<longleftrightarrow> x = c" by simp
  finally show ?thesis .
qed

lemma lower_chr_extsep [simp]: "lower_chr x = extsep \<longleftrightarrow> x = extsep"
  by (rule lower_chr_eq_iff) (simp add: extsep_def)

lemma lower_chr_sep [simp]: "lower_chr x = sep \<longleftrightarrow> x = sep"
  by (rule lower_chr_eq_iff) (simp add: sep_def)
















subsection \<open>Inserting into the table\<close>

lemma map_of_setdefault_append:
  "map_of (setdefault_append tbl k v) = (map_of tbl)(k \<mapsto> group_of tbl k @ [v])"
  by (induction tbl k v rule: setdefault_append.induct) (auto simp: group_of_def fun_eq_iff)

lemma group_of_setdefault_append:
  "group_of (setdefault_append tbl k v) k' = (if k' = k then group_of tbl k @ [v] else group_of tbl k')"
  by (simp add: group_of_def map_of_setdefault_append)

lemma keys_setdefault_append:
  "map fst (setdefault_append tbl k v) = (if k \<in> set (map fst tbl) then map fst tbl else map fst tbl @ [k])"
  by (induction tbl k v rule: setdefault_append.induct) auto

lemma distinct_setdefault_append:
  "distinct (map fst tbl) \<Longrightarrow> distinct (map fst (setdefault_append tbl k v))"
  by (simp add: keys_setdefault_append)

lemma total_setdefault_append:
  "sum_list (map (\<lambda>(ext, paths). length paths) (setdefault_append tbl k v)) = Suc (sum_list (map (\<lambda>(ext, paths). length paths) tbl))"
  by (induction tbl k v rule: setdefault_append.induct) auto

lemma nonempty_groups_setdefault_append:
  "\<forall>(ext, paths) \<in> set tbl. paths \<noteq> [] \<Longrightarrow> \<forall>(ext, paths) \<in> set (setdefault_append tbl k v). paths \<noteq> []"
  by (induction tbl k v rule: setdefault_append.induct) auto

subsection \<open>The two loops as one fold\<close>


lemma commonprefix_loop_le:
  fixes s1 s2 :: "'a::linorder list"
  shows "s1 \<le> s2 \<Longrightarrow> \<exists>pre. commonprefix_loop s1 s2 = Inr pre"
  by (induction s1 s2 rule: commonprefix_loop.induct) auto

lemma commonprefix_total: "\<exists>pre. commonprefix a b = Inr pre"
  unfolding commonprefix_def by (rule commonprefix_loop_le) (simp add: min_le_iff_disj)

lemma relpath_total:
  assumes "path \<noteq> []"
  shows "\<exists>rel_path. relpath cwd path start = Inr rel_path"
proof -
  let ?s = "filter (\<lambda>x. x \<noteq> []) (str_split (abspath cwd start) sep)"
  let ?p = "filter (\<lambda>x. x \<noteq> []) (str_split (abspath cwd path) sep)"
  obtain pre where "commonprefix ?s ?p = Inr pre" using commonprefix_total by blast
  with assms show ?thesis
    by (simp add: relpath_def Let_def split: list.splits)
qed

lemma join_nonempty: "path \<noteq> [] \<Longrightarrow> join path b \<noteq> []"
  by (auto simp: join_def startswith_def)

lemma walk_dirpath_nonempty:
  "top' \<noteq> [] \<Longrightarrow> x \<in> set (walk top' n) \<Longrightarrow> fst x \<noteq> []"
proof (induction top' n arbitrary: x rule: walk.induct)
  case (1 top' es)
  show ?case
  proof (cases "x = (top', map fst (filter (\<lambda>e. is_dir (snd e)) es),
           map fst (filter (\<lambda>e. \<not> is_dir (snd e)) es))")
    case True
    with "1.prems" show ?thesis by simp
  next
    case False
    with "1.prems" obtain e where e: "e \<in> set es" "is_dir (snd e) \<and> \<not> islink (snd e)"
      "x \<in> set (walk (join top' (fst e)) (snd e))"
      by (auto split: if_splits)
    moreover have "join top' (fst e) \<noteq> []" using "1.prems"(1) by (rule join_nonempty)
    ultimately show ?thesis using "1.IH" by blast
  qed
qed auto



lemma keys_set_setdefault_append:
  "fst ` set (setdefault_append tbl k v) = insert k (fst ` set tbl)"
  using keys_setdefault_append [of tbl k v, THEN arg_cong, of set] by (auto simp del: set_map simp: set_map [symmetric])


lemma for_filenames_fold:
  assumes "dirpath \<noteq> []"
  shows "for_filenames str_lower cwd folder dirpath filenames tbl =
     Inr (fold (record_file str_lower cwd folder) (map (Pair dirpath) filenames) tbl)"
proof (induction filenames arbitrary: tbl)
  case Nil
  show ?case by simp
next
  case (Cons filename filenames)
  from assms have "join dirpath filename \<noteq> []" by (rule join_nonempty)
  then obtain r where "relpath cwd (join dirpath filename) folder = Inr r"
    using relpath_total by blast
  then show ?case using Cons.IH by (simp add: record_file_def rel_path_of_def)
qed

lemma for_walk_fold:
  assumes "\<forall>x \<in> set ws. fst x \<noteq> []"
  shows "for_walk str_lower cwd folder ws tbl =
     Inr (fold (record_file str_lower cwd folder)
            (concat (map (\<lambda>(dirpath, dirnames, filenames). map (Pair dirpath) filenames) ws)) tbl)"
  using assms
proof (induction ws arbitrary: tbl)
  case Nil
  show ?case by simp
next
  case (Cons x ws)
  obtain dirpath dirnames filenames where x: "x = (dirpath, dirnames, filenames)"
    by (cases x)
  with Cons.prems have "dirpath \<noteq> []" by simp
  then show ?case using Cons x by (simp add: for_filenames_fold)
qed

lemma group_files_fold:
  assumes "folder \<noteq> []"
  shows "group_files str_lower cwd folder tree = Inr (fold (record_file str_lower cwd folder) (enumerated folder tree) [])"
  unfolding group_files_def enumerated_def
  by (rule for_walk_fold) (auto dest: walk_dirpath_nonempty [OF assms])

lemma rel_path_of_total:
  "fst visited \<noteq> [] \<Longrightarrow> \<exists>r. rel_path_of cwd folder visited = Inr r"
  unfolding rel_path_of_def by (rule relpath_total) (rule join_nonempty)

lemma enumerated_dirpath_nonempty:
  "folder \<noteq> [] \<Longrightarrow> v \<in> set (enumerated folder tree) \<Longrightarrow> fst v \<noteq> []"
  by (auto simp: enumerated_def dest: walk_dirpath_nonempty)

lemma record_file_eq:
  assumes "fst visited \<noteq> []"
  shows "\<exists>r. rel_path_of cwd folder visited = Inr r \<and>
     record_file str_lower cwd folder visited tbl = setdefault_append tbl (ext_of str_lower (snd visited)) r"
  using rel_path_of_total [OF assms, of cwd folder] by (auto simp: record_file_def)

lemma fold_record_distinct:
  "distinct (map fst tbl) \<Longrightarrow> distinct (map fst (fold (record_file str_lower cwd folder) vs tbl))"
proof (induction vs arbitrary: tbl)
  case (Cons v vs)
  then show ?case
    by (auto simp: record_file_def distinct_setdefault_append split: sum.splits)
qed simp


lemma fold_record_group:
  assumes "\<forall>v \<in> set vs. fst v \<noteq> []"
  shows "map Inr (group_of (fold (record_file str_lower cwd folder) vs tbl) ext) =
     map Inr (group_of tbl ext) @ map (rel_path_of cwd folder) (filter (\<lambda>(dirpath, filename). ext_of str_lower filename = ext) vs)"
  using assms
proof (induction vs arbitrary: tbl)
  case Nil
  show ?case by simp
next
  case (Cons v vs)
  from Cons.prems have "fst v \<noteq> []" by simp
  from record_file_eq [OF this, of cwd folder str_lower tbl] obtain r where
    r: "rel_path_of cwd folder v = Inr r"
       "record_file str_lower cwd folder v tbl = setdefault_append tbl (ext_of str_lower (snd v)) r" by blast
  have "map Inr (group_of (fold (record_file str_lower cwd folder) (v # vs) tbl) ext) =
        map Inr (group_of (record_file str_lower cwd folder v tbl) ext)
        @ map (rel_path_of cwd folder) (filter (\<lambda>(dirpath, filename). ext_of str_lower filename = ext) vs)"
    using Cons by simp
  then show ?case using r by (cases v) (simp add: group_of_setdefault_append)
qed

lemma fold_record_keys:
  assumes "\<forall>v \<in> set vs. fst v \<noteq> []"
  shows "set (map fst (fold (record_file str_lower cwd folder) vs tbl)) = set (map fst tbl) \<union> (\<lambda>v. ext_of str_lower (snd v)) ` set vs"
  using assms
proof (induction vs arbitrary: tbl)
  case Nil
  show ?case by simp
next
  case (Cons v vs)
  from Cons.prems have "fst v \<noteq> []" by simp
  from record_file_eq [OF this, of cwd folder str_lower tbl] obtain r where
    r: "record_file str_lower cwd folder v tbl = setdefault_append tbl (ext_of str_lower (snd v)) r" by blast
  show ?case using Cons r by (auto simp: keys_set_setdefault_append)
qed

lemma fold_record_total:
  assumes "\<forall>v \<in> set vs. fst v \<noteq> []"
  shows "sum_list (map (\<lambda>(ext, paths). length paths) (fold (record_file str_lower cwd folder) vs tbl)) =
     sum_list (map (\<lambda>(ext, paths). length paths) tbl) + length vs"
  using assms
proof (induction vs arbitrary: tbl)
  case Nil
  show ?case by simp
next
  case (Cons v vs)
  from Cons.prems have "fst v \<noteq> []" by simp
  from record_file_eq [OF this, of cwd folder str_lower tbl] obtain r where
    r: "record_file str_lower cwd folder v tbl = setdefault_append tbl (ext_of str_lower (snd v)) r" by blast
  show ?case using Cons r by (simp add: total_setdefault_append)
qed

lemma group_files_result:
  assumes "folder_selected \<noteq> []"
  shows "\<exists>files_by_ext.
     group_files str_lower cwd folder_selected tree = Inr files_by_ext
     \<and> distinct (map fst files_by_ext)
     \<and> (\<forall>ext. map Inr (group_of files_by_ext ext) =
            map (rel_path_of cwd folder_selected)
              (filter (\<lambda>(dirpath, filename). ext_of str_lower filename = ext)
                 (enumerated folder_selected tree)))
     \<and> set (map fst files_by_ext) = (\<lambda>(dirpath, filename). ext_of str_lower filename) ` set (enumerated folder_selected tree)
     \<and> sum_list (map (\<lambda>(ext, paths). length paths) files_by_ext) =
         length (enumerated folder_selected tree)"
proof -
  let ?vs = "enumerated folder_selected tree"
  let ?t = "fold (record_file str_lower cwd folder_selected) ?vs []"
  have ne: "\<forall>v \<in> set ?vs. fst v \<noteq> []"
    using enumerated_dirpath_nonempty [OF assms] by blast
  have "group_files str_lower cwd folder_selected tree = Inr ?t"
    using assms by (rule group_files_fold)
  moreover have "distinct (map fst ?t)" by (rule fold_record_distinct) simp
  moreover have "\<forall>ext. map Inr (group_of ?t ext) =
            map (rel_path_of cwd folder_selected)
              (filter (\<lambda>(dirpath, filename). ext_of str_lower filename = ext) ?vs)"
    using fold_record_group [OF ne, of str_lower cwd folder_selected "[]"] by (simp add: group_of_def)
  moreover have "set (map fst ?t) = (\<lambda>(dirpath, filename). ext_of str_lower filename) ` set ?vs"
    using fold_record_keys [OF ne, of str_lower cwd folder_selected "[]"] by (simp add: case_prod_unfold)
  moreover have "sum_list (map (\<lambda>(ext, paths). length paths) ?t) = length ?vs"
    using fold_record_total [OF ne, of str_lower cwd folder_selected "[]"] by simp
  ultimately show ?thesis by blast
qed


subsection \<open>split and join of strings\<close>

lemma split_from_nonempty [simp]: "split_from c cur s \<noteq> []"
  by (induction s arbitrary: cur) auto












subsection \<open>normpath\<close>



lemma normpath_loop_foldl: "normpath_loop i acc xs = foldl (normpath_step i) acc xs"
proof (induction xs arbitrary: acc)
  case Nil
  show ?case by simp
next
  case (Cons x xs)
  have "normpath_loop i acc (x # xs) = normpath_loop i (normpath_step i acc x) xs"
    unfolding normpath_step_def by (simp only: normpath_loop.simps if_distrib [of "\<lambda>a. normpath_loop i a xs"])
  then show ?case using Cons.IH by simp
qed

lemma normpath_loop_append:
  "normpath_loop i acc (xs @ ys) = normpath_loop i (normpath_loop i acc xs) ys"
  by (simp add: normpath_loop_foldl)







lemma normpath_step_plain: "plain_name name \<Longrightarrow> normpath_step i acc name = acc @ [name]"
  by (simp add: normpath_step_def plain_name_def)

lemma normpath_loop_plain:
  "plain_name name \<Longrightarrow> normpath_loop i acc [name] = acc @ [name]"
  by (simp add: normpath_loop_foldl normpath_step_plain)



lemma startswith_single: "startswith s [c] \<longleftrightarrow> (\<exists>t. s = c # t)"
  by (cases s) (simp_all add: startswith_def)

lemma endswith_single: "endswith s [c] \<longleftrightarrow> (\<exists>t. s = t @ [c])"
proof (cases s rule: rev_cases)
  case Nil
  then show ?thesis by (simp add: endswith_def)
next
  case (snoc t x)
  then show ?thesis by (simp add: endswith_def)
qed




subsection \<open>Relative paths of the files below the folder\<close>


















lemma enumerated_simps [simp]:
  "enumerated top' (Symlink n) = enumerated top' n"
  "enumerated top' File = []"
  "enumerated top' NoAccess = []"
  by (simp_all add: enumerated_def)




subsection \<open>The claims about the table\<close>

text \<open>
  Claim C3: for every directory tree, each file visited during the traversal appears in
  exactly one group of the extension group table, under exactly one key, exactly once,
  so that the number of paths over all groups is the number of files enumerated. The
  keys of the table are distinct, the group of a key is the list of the relative paths
  of exactly the visited files with that key, one entry for each in the order of the
  visit, every key has such a file, and the lengths of the groups add up to the number
  of visited files. The folder is not empty, since line 9 returns for an empty one.
\<close>

theorem every_file_in_one_group:
  assumes "folder_selected \<noteq> []"
  shows "\<exists>files_by_ext.
     group_files str_lower cwd folder_selected tree = Inr files_by_ext
     \<and> distinct (map fst files_by_ext)
     \<and> (\<forall>ext. map Inr (group_of files_by_ext ext) =
            map (rel_path_of cwd folder_selected)
              (filter (\<lambda>(dirpath, filename). ext_of str_lower filename = ext)
                 (enumerated folder_selected tree)))
     \<and> set (map fst files_by_ext) =
         (\<lambda>(dirpath, filename). ext_of str_lower filename) ` set (enumerated folder_selected tree)
     \<and> sum_list (map (\<lambda>(ext, paths). length paths) files_by_ext) =
         length (enumerated folder_selected tree)"
  using assms by (rule group_files_result)

theorem every_file_in_one_group_witness:
  "''/data/X'' \<noteq> []
   \<and> group_files (map lower_chr) ''/home/u'' ''/data/X''
        (Dir [(''a.TXT'', File), (''README'', File), (''sub'', Dir [(''c.txt'', File)])])
       = Inr [(''.txt'', [''a.TXT'', ''sub/c.txt'']), ([], [''README''])]
   \<and> map Inr (group_of [(''.txt'', [''a.TXT'', ''sub/c.txt'']), ([], [''README''])] ''.txt'') =
       map (rel_path_of ''/home/u'' ''/data/X'')
         (filter (\<lambda>(dirpath, filename). ext_of (map lower_chr) filename = ''.txt'')
            (enumerated ''/data/X''
               (Dir [(''a.TXT'', File), (''README'', File), (''sub'', Dir [(''c.txt'', File)])])))
   \<and> sum_list (map (\<lambda>(ext, paths). length paths)
          [(''.txt'', [''a.TXT'', ''sub/c.txt'']), ([], [''README''])]) =
       length (enumerated ''/data/X''
          (Dir [(''a.TXT'', File), (''README'', File), (''sub'', Dir [(''c.txt'', File)])]))"
proof -
  let ?tree = "Dir [(''a.TXT'', File), (''README'', File), (''sub'', Dir [(''c.txt'', File)])]"
  have h: "''/data/X'' \<noteq> []" by simp
  have g: "group_files (map lower_chr) ''/home/u'' ''/data/X'' ?tree
      = Inr [(''.txt'', [''a.TXT'', ''sub/c.txt'']), ([], [''README''])]"
    by code_simp
  from every_file_in_one_group [OF h, of "map lower_chr" "''/home/u''" ?tree]
  show ?thesis unfolding g using h by blast
qed







subsection \<open>The text of the report\<close>

lemma write_paths_eq: "write_paths paths f = f @ concat (map (\<lambda>path. path @ newline) paths)"
  by (induction paths arbitrary: f) (simp_all add: f_write_def)

lemma write_groups_eq:
  "write_groups items f = f @ concat (map (\<lambda>(ext, paths). spec_block ext paths) items)"
  by (induction items arbitrary: f) (auto simp: f_write_def write_paths_eq spec_block_def)








subsection \<open>Writes that can fail\<close>

lemma encodable_newline: "encodable newline"
  by (simp add: encodable_def newline_def)

lemma encodable_table_Nil: "encodable_table []"
  by (simp add: encodable_table_def)

lemma encodable_table_Cons:
  "encodable_table ((ext, paths) # items) \<longleftrightarrow>
     encodable (''--- '' @ ext @ '' ---'' @ newline)
     \<and> (\<forall>path \<in> set paths. encodable (path @ newline))
     \<and> encodable_table items"
  by (simp add: encodable_table_def)

lemma encodable_table_sorted_items:
  "encodable_table (sorted_items files_by_ext) = encodable_table files_by_ext"
  by (simp add: encodable_table_def sorted_items_def)

lemma write_paths_checked_ok:
  "\<forall>path \<in> set paths. encodable (path @ newline) \<Longrightarrow>
     write_paths_checked paths f = Inr (write_paths paths f)"
  by (induction paths arbitrary: f) (simp_all add: f_write_checked_def)

lemma write_paths_checked_fail:
  "\<exists>path \<in> set paths. \<not> encodable (path @ newline) \<Longrightarrow>
     \<exists>f' rest. write_paths_checked paths f = Inl (UnicodeEncodeError, f')
       \<and> rest \<noteq> [] \<and> write_paths paths f = f' @ rest"
proof (induction paths arbitrary: f)
  case Nil
  then show ?case by simp
next
  case (Cons path paths)
  show ?case
  proof (cases "encodable (path @ newline)")
    case False
    let ?rest = "(path @ newline) @ concat (map (\<lambda>path. path @ newline) paths)"
    have "write_paths_checked (path # paths) f = Inl (UnicodeEncodeError, f)"
      using False by (simp add: f_write_checked_def)
    moreover have "write_paths (path # paths) f = f @ ?rest"
      by (simp add: write_paths_eq f_write_def)
    moreover have "?rest \<noteq> []" by (simp add: newline_def)
    ultimately show ?thesis by blast
  next
    case True
    with Cons.prems have "\<exists>path \<in> set paths. \<not> encodable (path @ newline)" by auto
    then obtain f' rest where
      "write_paths_checked paths (f_write f (path @ newline)) = Inl (UnicodeEncodeError, f')"
      "rest \<noteq> []" "write_paths paths (f_write f (path @ newline)) = f' @ rest"
      using Cons.IH by blast
    then have "write_paths_checked (path # paths) f = Inl (UnicodeEncodeError, f')
        \<and> rest \<noteq> [] \<and> write_paths (path # paths) f = f' @ rest"
      using True by (simp add: f_write_checked_def)
    then show ?thesis by blast
  qed
qed

lemma write_groups_checked_ok:
  "encodable_table items \<Longrightarrow> write_groups_checked items f = Inr (write_groups items f)"
proof (induction items arbitrary: f)
  case Nil
  show ?case by simp
next
  case (Cons item items)
  obtain ext paths where item: "item = (ext, paths)" by (cases item)
  from Cons.prems have h: "encodable (''--- '' @ ext @ '' ---'' @ newline)"
    and ps: "\<forall>path \<in> set paths. encodable (path @ newline)"
    and rest: "encodable_table items"
    unfolding item encodable_table_Cons by simp_all
  show ?case
    unfolding item
    using h encodable_newline Cons.IH [OF rest]
    by (simp add: f_write_checked_def write_paths_checked_ok [OF ps])
qed

lemma write_groups_checked_fail:
  "\<not> encodable_table items \<Longrightarrow>
     \<exists>f' rest. write_groups_checked items f = Inl (UnicodeEncodeError, f')
       \<and> rest \<noteq> [] \<and> write_groups items f = f' @ rest"
proof (induction items arbitrary: f)
  case Nil
  then show ?case by (simp add: encodable_table_Nil)
next
  case (Cons item items)
  obtain ext paths where item: "item = (ext, paths)" by (cases item)
  let ?header = "''--- '' @ ext @ '' ---'' @ newline"
  let ?tail = "concat (map (\<lambda>(ext, paths). spec_block ext paths) items)"
  show ?case
  proof (cases "encodable ?header")
    case False
    have "write_groups_checked (item # items) f = Inl (UnicodeEncodeError, f)"
      unfolding item using False by (simp add: f_write_checked_def)
    moreover have "write_groups (item # items) f = f @ (spec_block ext paths @ ?tail)"
      unfolding item write_groups_eq by simp
    moreover have "spec_block ext paths @ ?tail \<noteq> []" by (simp add: spec_block_def)
    ultimately show ?thesis by blast
  next
    case h: True
    let ?f1 = "f_write f ?header"
    show ?thesis
    proof (cases "\<forall>path \<in> set paths. encodable (path @ newline)")
      case False
      then have "\<exists>path \<in> set paths. \<not> encodable (path @ newline)" by simp
      from write_paths_checked_fail [OF this, of ?f1] obtain f' rest where
        c: "write_paths_checked paths ?f1 = Inl (UnicodeEncodeError, f')"
        and p: "write_paths paths ?f1 = f' @ rest" by blast
      have "write_groups_checked (item # items) f = Inl (UnicodeEncodeError, f')"
        unfolding item using h c by (simp add: f_write_checked_def)
      moreover have "write_groups (item # items) f = f' @ (rest @ newline @ ?tail)"
      proof -
        have "write_groups (item # items) f =
            write_groups items (f_write (write_paths paths ?f1) newline)"
          unfolding item by simp
        also have "\<dots> = f' @ (rest @ newline @ ?tail)"
          unfolding p by (simp add: write_groups_eq f_write_def)
        finally show ?thesis .
      qed
      moreover have "rest @ newline @ ?tail \<noteq> []" by (simp add: newline_def)
      ultimately show ?thesis by blast
    next
      case ps: True
      let ?f3 = "f_write (write_paths paths ?f1) newline"
      from Cons.prems h ps have "\<not> encodable_table items"
        unfolding item encodable_table_Cons by simp
      from Cons.IH [OF this, of ?f3] obtain f' rest where
        c: "write_groups_checked items ?f3 = Inl (UnicodeEncodeError, f')"
        and r: "rest \<noteq> []" and p: "write_groups items ?f3 = f' @ rest" by blast
      have "write_groups_checked (item # items) f = Inl (UnicodeEncodeError, f')"
        unfolding item using h c encodable_newline
        by (simp add: f_write_checked_def write_paths_checked_ok [OF ps])
      moreover have "write_groups (item # items) f = f' @ rest"
        unfolding item using p by simp
      ultimately show ?thesis using r by blast
    qed
  qed
qed

lemma open_w_can_open:
  "can_open w p \<Longrightarrow> open_w p w = Inr (w\<lparr>fs := (fs w)(p \<mapsto> Regular [])\<rparr>)"
  by (auto simp: can_open_def open_w_def Let_def)

lemma close_file_opened:
  "close_file p f (w\<lparr>fs := (fs w)(p \<mapsto> Regular [])\<rparr>) = w\<lparr>fs := (fs w)(p \<mapsto> Regular f)\<rparr>"
  by (simp add: close_file_def content_at_def)

lemma write_results_eq:
  assumes "can_open w p"
  shows "write_results p tbl w =
     (case write_groups_checked (sorted_items tbl) [] of
        Inl (e, f) \<Rightarrow> Inl (e, w\<lparr>fs := (fs w)(p \<mapsto> Regular f)\<rparr>)
      | Inr f \<Rightarrow> Inr (w\<lparr>fs := (fs w)(p \<mapsto> Regular f)\<rparr>))"
  by (simp add: write_results_def open_w_can_open [OF assms] close_file_opened
      split: sum.splits prod.splits)

lemma write_results_encodable:
  assumes "can_open w p" and "encodable_table tbl"
  shows "write_results p tbl w = Inr (w\<lparr>fs := (fs w)(p \<mapsto> Regular (report tbl))\<rparr>)"
proof -
  have "write_groups_checked (sorted_items tbl) [] = Inr (report tbl)"
    unfolding report_def using assms(2)
    by (intro write_groups_checked_ok) (simp add: encodable_table_sorted_items)
  then show ?thesis by (simp add: write_results_eq [OF assms(1)])
qed

lemma write_results_not_encodable:
  assumes "can_open w p" and "\<not> encodable_table tbl"
  shows "\<exists>text rest. write_results p tbl w
       = Inl (UnicodeEncodeError, w\<lparr>fs := (fs w)(p \<mapsto> Regular text)\<rparr>)
     \<and> rest \<noteq> [] \<and> report tbl = text @ rest"
proof -
  from assms(2) have "\<not> encodable_table (sorted_items tbl)"
    by (simp add: encodable_table_sorted_items)
  from write_groups_checked_fail [OF this, of "[]"] obtain written rest where
    c: "write_groups_checked (sorted_items tbl) [] = Inl (UnicodeEncodeError, written)"
    and r: "rest \<noteq> []" and p: "report tbl = written @ rest"
    unfolding report_def by blast
  have "write_results p tbl w
      = Inl (UnicodeEncodeError, w\<lparr>fs := (fs w)(p \<mapsto> Regular written)\<rparr>)"
    using c by (simp add: write_results_eq [OF assms(1)])
  then show ?thesis using r p by blast
qed


subsection \<open>Paths below a tidy directory\<close>

lemma rfind_append:
  assumes "c \<notin> set w"
  shows "rfind (a @ c # w) c = int (length a)"
proof (induction a)
  case Nil
  show ?case using rfind_absent [OF assms] by simp
next
  case (Cons x a)
  then show ?case by (simp add: Let_def)
qed

lemma basename_free: "sep \<notin> set (basename p)"
proof (cases "0 \<le> rfind p sep")
  case True
  then have "nat (rfind p sep + 1) = Suc (nat (rfind p sep))" by simp
  then show ?thesis using rfind_split [OF True] by (simp add: basename_def)
next
  case False
  then have "sep \<notin> set p" using rfind_neg_iff [of p sep] by simp
  then show ?thesis by (auto simp: basename_def dest: in_set_dropD)
qed

lemma rstrip_snoc_other: "x \<noteq> c \<Longrightarrow> rstrip (a @ [x]) c = a @ [x]"
  by (simp add: rstrip_def)

lemma rstrip_snoc_same: "rstrip (a @ [c]) c = rstrip a c"
  by (simp add: rstrip_def)

lemma tidy_cases:
  assumes "tidy x"
  obtains (slashes) k where "x = replicate (Suc k) sep"
  | (ends) a y where "x = a @ [y]" and "y \<noteq> sep"
proof (cases "endswith x [sep]")
  case True
  with assms have "x = replicate (length x) sep" and "x \<noteq> []" by (simp_all add: tidy_def)
  then obtain k where "length x = Suc k" by (cases x) auto
  with \<open>x = replicate (length x) sep\<close> have "x = replicate (Suc k) sep" by simp
  then show ?thesis by (rule slashes)
next
  case False
  from assms have "x \<noteq> []" by (simp add: tidy_def)
  then obtain a y where x: "x = a @ [y]" by (cases x rule: rev_cases) auto
  with False have "y \<noteq> sep" by (auto simp: endswith_single)
  with x show ?thesis by (rule ends)
qed

lemma replicate_Suc_snoc: "replicate (Suc k) c = replicate k c @ [c]"
  by (simp add: replicate_append_same)

lemma path_split_join:
  assumes "tidy x" and "sep \<notin> set w"
  shows "path_split (join x w) = (x, w)"
  using assms(1)
proof (cases rule: tidy_cases)
  case (slashes k)
  have x: "x = replicate k sep @ [sep]" unfolding slashes by (rule replicate_Suc_snoc)
  have nabs: "\<not> startswith w [sep]" using assms(2) by (auto simp: startswith_single)
  have e: "endswith x [sep]" using x by (auto simp: endswith_single)
  have j: "join x w = replicate k sep @ sep # w"
    using nabs e by (simp add: join_def x)
  have r: "rfind (join x w) sep = int k" unfolding j using rfind_append [OF assms(2)] by simp
  have t: "take (Suc k) (replicate k sep @ sep # w) = replicate (Suc k) sep"
    by (simp add: replicate_append_same)
  show ?thesis
    unfolding path_split_def r Let_def
    by (simp add: j nat_add_distrib t) (simp add: slashes replicate_append_same)
next
  case (ends a y)
  have nabs: "\<not> startswith w [sep]" using assms(2) by (auto simp: startswith_single)
  have e: "\<not> endswith x [sep]" using ends by (auto simp: endswith_single)
  have j: "join x w = x @ sep # w"
    using nabs e ends by (simp add: join_def)
  have r: "rfind (join x w) sep = int (length x)"
    unfolding j by (rule rfind_append [OF assms(2)])
  have nz: "x @ [sep] \<noteq> replicate (Suc (length x)) sep"
  proof
    assume "x @ [sep] = replicate (Suc (length x)) sep"
    then have "set (x @ [sep]) \<subseteq> {sep}" by (metis set_replicate_conv_if subset_refl empty_subsetI)
    with ends show False by auto
  qed
  have "rstrip (x @ [sep]) sep = rstrip x sep" by (rule rstrip_snoc_same)
  also have "\<dots> = x" unfolding ends(1) using ends(2) by (rule rstrip_snoc_other)
  finally have "rstrip (x @ [sep]) sep = x" .
  then show ?thesis
    unfolding path_split_def r Let_def using nz
    by (simp add: j nat_add_distrib)
qed

lemma head_tail_join:
  assumes "tidy x" and "sep \<notin> set w" and "w \<noteq> []"
  shows "head_tail (join x w) = (x, w)"
  using assms by (simp add: head_tail_def path_split_join)

lemma join_tidy_plain:
  assumes "tidy x" and "sep \<notin> set w" and "w \<noteq> []"
  shows "tidy (join x w)" and "length x < length (join x w)"
proof -
  have nabs: "\<not> startswith w [sep]" using assms(2) by (auto simp: startswith_single)
  from assms(1) have "x \<noteq> []" by (simp add: tidy_def)
  then have j: "join x w = x @ w \<or> join x w = x @ sep # w"
    using nabs by (simp add: join_def)
  from assms(3) have "last w \<in> set w" by (rule last_in_set)
  with assms(2) have "last w \<noteq> sep" by metis
  with j assms(3) have "last (join x w) \<noteq> sep" by auto
  moreover have "join x w \<noteq> []" using j assms(3) by auto
  ultimately show "tidy (join x w)"
    unfolding tidy_def endswith_single by (metis last_snoc)
  show "length x < length (join x w)" using j assms(3) by auto
qed

subsection \<open>Creating the output directory\<close>

lemma chain_snoc: "chain base (ds @ [d]) = chain base ds @ [join (foldl join base ds) d]"
  by (induction ds arbitrary: base) simp_all

lemma plain_free: "plain_name d \<Longrightarrow> sep \<notin> set d \<and> d \<noteq> [] \<and> d \<noteq> ''.''"
  by (simp add: plain_name_def)

lemma chain_tidy:
  assumes "tidy base" and "\<forall>d \<in> set ds. plain_name d"
  shows "tidy (foldl join base ds) \<and> (\<forall>p \<in> set (chain base ds). length p \<le> length (foldl join base ds))"
  using assms(2)
proof (induction ds rule: rev_induct)
  case Nil
  show ?case using assms(1) by simp
next
  case (snoc d ds)
  then have IH: "tidy (foldl join base ds)"
    "\<forall>p \<in> set (chain base ds). length p \<le> length (foldl join base ds)" by simp_all
  from snoc.prems have d: "sep \<notin> set d" "d \<noteq> []" using plain_free by auto
  have "tidy (join (foldl join base ds) d)"
    and lt: "length (foldl join base ds) < length (join (foldl join base ds) d)"
    using IH(1) d by (rule join_tidy_plain)+
  moreover have "\<forall>p \<in> set (chain base ds). length p \<le> length (join (foldl join base ds) d)"
    using IH(2) lt by fastforce
  ultimately show ?case by (simp add: chain_snoc)
qed

lemma only_dirs_added_refl: "only_dirs_added w w ps"
  by (simp add: only_dirs_added_def)

lemma only_dirs_added_trans:
  assumes "only_dirs_added w w1 ps" and "only_dirs_added w1 w2 qs"
  shows "only_dirs_added w w2 (ps @ qs)"
  unfolding only_dirs_added_def
proof (intro conjI allI)
  show "stdout w2 = stdout w" using assms by (simp add: only_dirs_added_def)
  fix p
  from assms(1) have a: "fs w1 p = fs w p \<or> (p \<in> set ps \<and> fs w p = None \<and> fs w1 p = Some Directory)"
    by (simp add: only_dirs_added_def)
  from assms(2) have b: "fs w2 p = fs w1 p \<or> (p \<in> set qs \<and> fs w1 p = None \<and> fs w2 p = Some Directory)"
    by (simp add: only_dirs_added_def)
  from a b show "fs w2 p = fs w p \<or> (p \<in> set (ps @ qs) \<and> fs w p = None \<and> fs w2 p = Some Directory)"
    by auto
qed

lemma not_regular_kept:
  "only_dirs_added w w' ps \<Longrightarrow> not_regular w p \<Longrightarrow> not_regular w' p"
  unfolding only_dirs_added_def not_regular_def by metis

lemma mkdir_exist_ok_under:
  assumes "tidy x" and "sep \<notin> set d" and "d \<noteq> []"
    and "fs w x = Some Directory" and "not_regular w (join x d)"
  shows "\<exists>w'. mkdir_exist_ok (join x d) w = Inr w' \<and> fs w' (join x d) = Some Directory
     \<and> only_dirs_added w w' [join x d]"
proof (cases "fs w (join x d) = None")
  case True
  have "mkdir (join x d) w = Inr (w\<lparr>fs := (fs w)(join x d \<mapsto> Directory)\<rparr>)"
    using True assms(4) head_tail_join [OF assms(1-3)]
    by (simp add: mkdir_def path_exists_def isdir_def)
  then show ?thesis using True
    by (simp add: mkdir_exist_ok_def only_dirs_added_def)
next
  case False
  with assms(5) have dir: "fs w (join x d) = Some Directory" by (simp add: not_regular_def)
  then have "mkdir (join x d) w = Inl (FileExistsError, w)"
    by (simp add: mkdir_def path_exists_def Let_def)
  then show ?thesis using dir
    by (simp add: mkdir_exist_ok_def isdir_def only_dirs_added_refl)
qed

lemma parents_first_exist:
  "parents_first w ps \<Longrightarrow> ps \<noteq> [] \<Longrightarrow> fs w (last ps) \<noteq> None \<Longrightarrow> \<forall>p \<in> set ps. fs w p \<noteq> None"
proof (induction w ps rule: parents_first.induct)
  case (3 w p q ps)
  from "3.prems"(1) have pf: "parents_first w (q # ps)"
    and imp: "fs w q \<noteq> None \<longrightarrow> fs w p \<noteq> None" by simp_all
  from "3.prems"(3) have "fs w (last (q # ps)) \<noteq> None" by simp
  with pf have rest: "\<forall>x \<in> set (q # ps). fs w x \<noteq> None" by (intro "3.IH") simp_all
  then have "fs w q \<noteq> None" by simp
  with imp have "fs w p \<noteq> None" by simp
  with rest show ?case by simp
qed simp_all

lemma parents_first_butlast: "parents_first w (ps @ [q]) \<Longrightarrow> parents_first w ps"
proof (induction w ps rule: parents_first.induct)
  case (3 w p r ps)
  from "3.prems" have "parents_first w (p # r # (ps @ [q]))" by simp
  then have imp: "fs w r \<noteq> None \<longrightarrow> fs w p \<noteq> None"
    and rest: "parents_first w ((r # ps) @ [q])" by simp_all
  from rest have "parents_first w (r # ps)" by (rule "3.IH")
  with imp show ?case by simp
qed simp_all

lemma last_chain:
  "ds \<noteq> [] \<Longrightarrow> chain base ds \<noteq> [] \<and> last (chain base ds) = foldl join base ds"
  by (cases ds rule: rev_cases) (simp_all add: chain_snoc)

lemma makedirs_chain:
  assumes "tidy base" and "fs w base = Some Directory"
  shows "\<forall>d \<in> set ds. plain_name d \<Longrightarrow> \<forall>p \<in> set (chain base ds). not_regular w p \<Longrightarrow>
     ds \<noteq> [] \<Longrightarrow>
     \<exists>w'. makedirs (foldl join base ds) w = Inr w'
       \<and> fs w' (foldl join base ds) = Some Directory
       \<and> only_dirs_added w w' (chain base ds)
       \<and> (parents_first w (chain base ds) \<longrightarrow>
            (\<forall>p \<in> set (chain base ds). fs w' p = Some Directory))"
proof (induction ds rule: rev_induct)
  case Nil
  then show ?case by simp
next
  case (snoc d ds)
  let ?x = "foldl join base ds"
  let ?name = "join ?x d"
  from snoc.prems(1) have plain: "\<forall>d \<in> set ds. plain_name d" and pd: "plain_name d" by simp_all
  from pd have d: "sep \<notin> set d" "d \<noteq> []" "d \<noteq> ''.''" using plain_free by auto
  have tx: "tidy ?x" using chain_tidy [OF assms(1) plain] by simp
  then have xne: "?x \<noteq> []" by (simp add: tidy_def)
  have ht: "head_tail ?name = (?x, d)" using tx d(1,2) by (rule head_tail_join)
  from snoc.prems(2) have nr: "\<forall>p \<in> set (chain base ds). not_regular w p"
    and nrn: "not_regular w ?name" by (simp_all add: chain_snoc)
  have kept: "\<forall>p \<in> set (chain base ds). fs v' p = Some Directory"
    if "only_dirs_added v v' [?name]" and "\<forall>p \<in> set (chain base ds). fs v p = Some Directory"
    for v v'
    using that unfolding only_dirs_added_def by metis
  show ?case
  proof (cases "path_exists w ?x")
    case True
    have dirx: "fs w ?x = Some Directory"
    proof (cases "ds = []")
      case True
      then show ?thesis using assms(2) by simp
    next
      case False
      then have "not_regular w ?x" using nr last_chain [of ds base] last_in_set by metis
      with True show ?thesis by (auto simp: not_regular_def path_exists_def)
    qed
    from mkdir_exist_ok_under [OF tx d(1,2) this nrn] obtain w' where
      w': "mkdir_exist_ok ?name w = Inr w'" "fs w' ?name = Some Directory"
          "only_dirs_added w w' [?name]" by blast
    have "makedirs ?name w = Inr w'"
      using ht True w'(1) by (subst makedirs.simps) simp
    moreover have "only_dirs_added w w' (chain base (ds @ [d]))"
      using only_dirs_added_trans [OF only_dirs_added_refl [of w "chain base ds"] w'(3)]
      by (simp add: chain_snoc)
    moreover have "\<forall>p \<in> set (chain base (ds @ [d])). fs w' p = Some Directory"
      if pf: "parents_first w (chain base (ds @ [d]))"
    proof -
      have "\<forall>p \<in> set (chain base ds). fs w p = Some Directory"
      proof (cases "ds = []")
        case True
        then show ?thesis by simp
      next
        case False
        from pf have "parents_first w (chain base ds)"
          unfolding chain_snoc by (rule parents_first_butlast)
        moreover have "chain base ds \<noteq> []" and "fs w (last (chain base ds)) \<noteq> None"
          using last_chain [OF False, of base] dirx by simp_all
        ultimately have "\<forall>p \<in> set (chain base ds). fs w p \<noteq> None"
          by (rule parents_first_exist)
        with nr show ?thesis unfolding not_regular_def by blast
      qed
      with w'(3) have "\<forall>p \<in> set (chain base ds). fs w' p = Some Directory" by (rule kept)
      with w'(2) show ?thesis by (simp add: chain_snoc)
    qed
    ultimately show ?thesis using w'(2) by auto
  next
    case False
    then have "ds \<noteq> []" using assms(2) by (auto simp: path_exists_def)
    from snoc.IH [OF plain nr this] obtain w1 where
      w1: "makedirs ?x w = Inr w1" "fs w1 ?x = Some Directory"
          "only_dirs_added w w1 (chain base ds)"
          "parents_first w (chain base ds) \<longrightarrow>
             (\<forall>p \<in> set (chain base ds). fs w1 p = Some Directory)" by blast
    have "not_regular w1 ?name" using w1(3) nrn by (rule not_regular_kept)
    from mkdir_exist_ok_under [OF tx d(1,2) w1(2) this] obtain w' where
      w': "mkdir_exist_ok ?name w1 = Inr w'" "fs w' ?name = Some Directory"
          "only_dirs_added w1 w' [?name]" by blast
    have "makedirs ?name w = Inr w'"
      using ht False xne d w1(1) w'(1) by (subst makedirs.simps) simp
    moreover have "only_dirs_added w w' (chain base (ds @ [d]))"
      using only_dirs_added_trans [OF w1(3) w'(3)] by (simp add: chain_snoc)
    moreover have "\<forall>p \<in> set (chain base (ds @ [d])). fs w' p = Some Directory"
      if pf: "parents_first w (chain base (ds @ [d]))"
    proof -
      from pf have "parents_first w (chain base ds)"
        unfolding chain_snoc by (rule parents_first_butlast)
      with w1(4) have "\<forall>p \<in> set (chain base ds). fs w1 p = Some Directory" by simp
      with w'(3) have "\<forall>p \<in> set (chain base ds). fs w' p = Some Directory" by (rule kept)
      with w'(2) show ?thesis by (simp add: chain_snoc)
    qed
    ultimately show ?thesis using w'(2) by auto
  qed
qed

subsection \<open>The whole run\<close>

lemma plain_output: "plain_name ''output''"
  by (simp add: plain_name_def sep_def)

lemma report_name_free: "sep \<notin> set (basename folder @ ''.txt'')"
  using basename_free [of folder] by (simp add: sep_def)

lemma scan_selected_result:
  assumes "folder \<noteq> []" and "can_write_report ev folder w base ds"
  shows "\<exists>tbl w1.
     group_files (lowering ev) (getcwd ev) folder (listing ev) = Inr tbl
     \<and> only_dirs_added w w1 (chain base (ds @ [''output'']))
     \<and> fs w1 (output_dir_of ev) = Some Directory
     \<and> (parents_first w (chain base (ds @ [''output''])) \<longrightarrow>
          (\<forall>p \<in> set (chain base (ds @ [''output''])). fs w1 p = Some Directory))
     \<and> output_path_of ev folder \<notin> set (chain base (ds @ [''output'']))
     \<and> output_path_of ev folder \<noteq> output_dir_of ev
     \<and> can_open w1 (output_path_of ev folder)
     \<and> scan_selected ev folder w =
         (case write_results (output_path_of ev folder) tbl w1 of
            Inl x \<Rightarrow> Inl x
          | Inr w2 \<Rightarrow> Inr (print (''Saved to: '' @ output_path_of ev folder) w2))"
proof -
  let ?ds = "ds @ [''output'']"
  let ?out_dir = "output_dir_of ev"
  let ?name = "basename folder @ ''.txt''"
  let ?out_path = "output_path_of ev folder"
  from assms(2) have sd: "script_dir_of ev = foldl join base ds"
    and tb: "tidy base" and fb: "fs w base = Some Directory"
    and pl: "\<forall>d \<in> set ds. plain_name d"
    and nr: "\<forall>p \<in> set (chain base ?ds). not_regular w p"
    and nd: "fs w ?out_path \<noteq> Some Directory"
    by (simp_all add: can_write_report_def)
  obtain tbl where g: "group_files (lowering ev) (getcwd ev) folder (listing ev) = Inr tbl"
    using group_files_fold [OF assms(1)] by blast
  have od: "?out_dir = foldl join base ?ds" by (simp add: output_dir_of_def sd)
  have pl': "\<forall>d \<in> set ?ds. plain_name d" using pl plain_output by simp
  from makedirs_chain [OF tb fb pl' nr] obtain w1 where
    w1: "makedirs ?out_dir w = Inr w1" "fs w1 ?out_dir = Some Directory"
        "only_dirs_added w w1 (chain base ?ds)"
        "parents_first w (chain base ?ds) \<longrightarrow>
           (\<forall>p \<in> set (chain base ?ds). fs w1 p = Some Directory)"
    unfolding od by blast
  have td: "tidy ?out_dir"
    and len: "\<forall>p \<in> set (chain base ?ds). length p \<le> length ?out_dir"
    using chain_tidy [OF tb pl'] unfolding od by simp_all
  have nf: "sep \<notin> set ?name" by (rule report_name_free)
  have op: "?out_path = join ?out_dir ?name" by (simp add: output_path_of_def)
  have longer: "length ?out_dir < length ?out_path"
    unfolding op using td nf by (intro join_tidy_plain) simp_all
  then have notin: "?out_path \<notin> set (chain base ?ds)" using len by fastforce
  have ne: "?out_path \<noteq> ?out_dir" using longer by auto
  have same: "fs w1 ?out_path = fs w ?out_path"
    using w1(3) notin by (auto simp: only_dirs_added_def)
  have "path_split (join ?out_dir ?name) = (?out_dir, ?name)"
    using td nf by (rule path_split_join)
  then have co: "can_open w1 ?out_path"
    unfolding op [symmetric] using same nd w1(2) op by (simp add: can_open_def isdir_def)
  have run: "scan_selected ev folder w =
         (case write_results ?out_path tbl w1 of
            Inl x \<Rightarrow> Inl x
          | Inr w2 \<Rightarrow> Inr (print (''Saved to: '' @ ?out_path) w2))"
    using g w1(1)
    by (simp add: scan_selected_def Let_def output_path_of_def output_dir_of_def
        script_dir_of_def cong: sum.case_cong)
  from g w1(3) w1(2) w1(4) notin ne co run show ?thesis by blast
qed

lemma scan_selected_written:
  assumes "folder \<noteq> []" and "can_write_report ev folder w base ds"
  shows "\<exists>tbl w'.
     group_files (lowering ev) (getcwd ev) folder (listing ev) = Inr tbl
     \<and> (if encodable_table tbl
         then scan_selected ev folder w = Inr w'
           \<and> fs w' (output_path_of ev folder) = Some (Regular (report tbl))
           \<and> stdout w' = stdout w @ ''Saved to: '' @ output_path_of ev folder @ newline
         else scan_selected ev folder w = Inl (UnicodeEncodeError, w')
           \<and> (\<exists>written rest. fs w' (output_path_of ev folder) = Some (Regular written)
                 \<and> rest \<noteq> [] \<and> report tbl = written @ rest)
           \<and> stdout w' = stdout w)
     \<and> (parents_first w (chain base (ds @ [''output''])) \<longrightarrow>
          (\<forall>p \<in> set (chain base (ds @ [''output''])). fs w' p = Some Directory))
     \<and> fs w' (output_dir_of ev) = Some Directory
     \<and> (\<forall>p. p \<noteq> output_path_of ev folder \<longrightarrow>
           fs w' p = fs w p
           \<or> (p \<in> set (chain base (ds @ [''output''])) \<and> fs w p = None
              \<and> fs w' p = Some Directory))"
proof -
  let ?C = "chain base (ds @ [''output''])"
  let ?out_dir = "output_dir_of ev"
  let ?out_path = "output_path_of ev folder"
  from scan_selected_result [OF assms] obtain tbl w1 where
    g: "group_files (lowering ev) (getcwd ev) folder (listing ev) = Inr tbl"
    and added: "only_dirs_added w w1 ?C"
    and dir: "fs w1 ?out_dir = Some Directory"
    and dirs: "parents_first w ?C \<longrightarrow> (\<forall>p \<in> set ?C. fs w1 p = Some Directory)"
    and notin: "?out_path \<notin> set ?C"
    and ne: "?out_path \<noteq> ?out_dir"
    and co: "can_open w1 ?out_path"
    and run: "scan_selected ev folder w =
         (case write_results ?out_path tbl w1 of
            Inl x \<Rightarrow> Inl x
          | Inr w2 \<Rightarrow> Inr (print (''Saved to: '' @ ?out_path) w2))"
    by blast
  have out: "stdout w1 = stdout w" using added by (simp add: only_dirs_added_def)
  have common: "(parents_first w ?C \<longrightarrow> (\<forall>p \<in> set ?C. fs v p = Some Directory))
     \<and> fs v ?out_dir = Some Directory
     \<and> (\<forall>p. p \<noteq> ?out_path \<longrightarrow>
           fs v p = fs w p \<or> (p \<in> set ?C \<and> fs w p = None \<and> fs v p = Some Directory))"
    if v: "fs v = (fs w1)(?out_path \<mapsto> Regular f)" for v f
  proof -
    have eq: "fs v p = fs w1 p" if "p \<noteq> ?out_path" for p using v that by simp
    have "\<forall>p \<in> set ?C. fs v p = Some Directory" if "parents_first w ?C"
    proof
      fix p assume p: "p \<in> set ?C"
      with notin have "p \<noteq> ?out_path" by blast
      then have "fs v p = fs w1 p" by (rule eq)
      with dirs that p show "fs v p = Some Directory" by simp
    qed
    moreover have "fs v ?out_dir = Some Directory" using eq [of ?out_dir] ne dir by simp
    moreover have "fs v p = fs w p \<or> (p \<in> set ?C \<and> fs w p = None \<and> fs v p = Some Directory)"
      if "p \<noteq> ?out_path" for p
    proof -
      from added have "fs w1 p = fs w p
          \<or> (p \<in> set ?C \<and> fs w p = None \<and> fs w1 p = Some Directory)"
        by (simp add: only_dirs_added_def)
      then show ?thesis unfolding eq [OF that] .
    qed
    ultimately show ?thesis by blast
  qed
  show ?thesis
  proof (cases "encodable_table tbl")
    case True
    let ?w2 = "w1\<lparr>fs := (fs w1)(?out_path \<mapsto> Regular (report tbl))\<rparr>"
    let ?w' = "print (''Saved to: '' @ ?out_path) ?w2"
    have wr: "write_results ?out_path tbl w1 = Inr ?w2"
      using co True by (rule write_results_encodable)
    have f: "fs ?w' = (fs w1)(?out_path \<mapsto> Regular (report tbl))" by (simp add: print_def)
    have 1: "scan_selected ev folder w = Inr ?w'" unfolding run wr by simp
    have 2: "fs ?w' ?out_path = Some (Regular (report tbl))" unfolding f by simp
    have 3: "stdout ?w' = stdout w @ ''Saved to: '' @ ?out_path @ newline"
      using out by (simp add: print_def)
    from g True 1 2 3 common [OF f] show ?thesis by (intro exI [of _ tbl] exI [of _ ?w']) simp
  next
    case False
    from write_results_not_encodable [OF co False] obtain written rest where
      wr: "write_results ?out_path tbl w1
         = Inl (UnicodeEncodeError, w1\<lparr>fs := (fs w1)(?out_path \<mapsto> Regular written)\<rparr>)"
      and r: "rest \<noteq> []" "report tbl = written @ rest" by blast
    let ?w' = "w1\<lparr>fs := (fs w1)(?out_path \<mapsto> Regular written)\<rparr>"
    have f: "fs ?w' = (fs w1)(?out_path \<mapsto> Regular written)" by simp
    have 1: "scan_selected ev folder w = Inl (UnicodeEncodeError, ?w')" unfolding run wr by simp
    have 2: "\<exists>written rest. fs ?w' ?out_path = Some (Regular written)
        \<and> rest \<noteq> [] \<and> report tbl = written @ rest"
      using r by auto
    have 3: "stdout ?w' = stdout w" using out by simp
    from g False 1 2 3 common [OF f] show ?thesis by (intro exI [of _ tbl] exI [of _ ?w']) simp
  qed
qed


text \<open>
  Claim C4: if the picker returns a cancelled or empty result, the run prints exactly
  the line \<^verbatim>\<open>No folder selected.\<close>, writes no report file, has no other effect and
  returns normally. The world it returns is the one it started in with that line added
  to the console; the file system is the same.
\<close>

theorem cancelled_picker_prints_and_returns:
  assumes "askdirectory ev = EmptyTuple \<or> askdirectory ev = Str []"
  shows "scan_folder_for_filetypes ev w
     = Inr (w\<lparr>stdout := stdout w @ ''No folder selected.'' @ newline\<rparr>)
     \<and> fs (w\<lparr>stdout := stdout w @ ''No folder selected.'' @ newline\<rparr>) = fs w"
  using assms by (auto simp: scan_folder_for_filetypes_def print_def)

theorem cancelled_picker_prints_and_returns_witness:
  "askdirectory \<lparr>askdirectory = Str [], listing = Dir [(''a.txt'', File)],
       script_file = ''creepdir.py'', getcwd = ''/opt/tool'', lowering = map lower_chr\<rparr> = Str []
   \<and> scan_folder_for_filetypes
        \<lparr>askdirectory = Str [], listing = Dir [(''a.txt'', File)],
         script_file = ''creepdir.py'', getcwd = ''/opt/tool'', lowering = map lower_chr\<rparr>
        \<lparr>stdout = [], fs = [''/opt/tool'' \<mapsto> Directory]\<rparr>
       = Inr \<lparr>stdout = ''No folder selected.'' @ newline, fs = [''/opt/tool'' \<mapsto> Directory]\<rparr>"
proof -
  let ?ev = "\<lparr>askdirectory = Str [], listing = Dir [(''a.txt'', File)],
       script_file = ''creepdir.py'', getcwd = ''/opt/tool'', lowering = map lower_chr\<rparr>"
  have a: "askdirectory ?ev = EmptyTuple \<or> askdirectory ?ev = Str []" by simp
  show ?thesis
    using cancelled_picker_prints_and_returns [OF a,
        of "\<lparr>stdout = [], fs = [''/opt/tool'' \<mapsto> Directory]\<rparr>"]
    by simp
qed





text \<open>
  Claim C8: when the selected directory contains no files, a report file is still
  created at the output path, with no header block and no content: the table is empty
  and the file has zero bytes.
\<close>

theorem empty_folder_empty_report:
  assumes "askdirectory ev = Str folder_selected" and "folder_selected \<noteq> []"
    and "enumerated folder_selected (listing ev) = []"
    and "can_write_report ev folder_selected w base ds"
  shows "\<exists>w'. scan_folder_for_filetypes ev w = Inr w'
     \<and> fs w' (output_path_of ev folder_selected) = Some (Regular [])
     \<and> group_files (lowering ev) (getcwd ev) folder_selected (listing ev) = Inr []
     \<and> report [] = []"
proof -
  have g: "group_files (lowering ev) (getcwd ev) folder_selected (listing ev) = Inr []"
    using group_files_fold [OF assms(2), of "lowering ev" "getcwd ev" "listing ev"] assms(3)
    by simp
  have r: "report [] = []" by (simp add: report_def sorted_items_def)
  have run: "scan_folder_for_filetypes ev w = scan_selected ev folder_selected w"
    using assms(1,2) by (simp add: scan_folder_for_filetypes_def)
  from scan_selected_written [OF assms(2,4)] obtain tbl w' where
    t: "group_files (lowering ev) (getcwd ev) folder_selected (listing ev) = Inr tbl"
    and i: "if encodable_table tbl
         then scan_selected ev folder_selected w = Inr w'
           \<and> fs w' (output_path_of ev folder_selected) = Some (Regular (report tbl))
           \<and> stdout w' = stdout w @ ''Saved to: '' @ output_path_of ev folder_selected @ newline
         else scan_selected ev folder_selected w = Inl (UnicodeEncodeError, w')
           \<and> (\<exists>written rest.
                 fs w' (output_path_of ev folder_selected) = Some (Regular written)
                 \<and> rest \<noteq> [] \<and> report tbl = written @ rest)
           \<and> stdout w' = stdout w"
    by blast
  from t g have "tbl = []" by simp
  with i have "scan_selected ev folder_selected w = Inr w'"
    and "fs w' (output_path_of ev folder_selected) = Some (Regular [])"
    by (simp_all add: encodable_table_Nil r)
  then show ?thesis using g r unfolding run by blast
qed

theorem empty_folder_empty_report_witness:
  "\<exists>w'.
     scan_folder_for_filetypes
       \<lparr>askdirectory = Str ''/data/Empty'', listing = Dir [(''sub'', Dir [])],
        script_file = ''/opt/tool/creepdir.py'', getcwd = ''/home/u'',
        lowering = map lower_chr\<rparr>
       \<lparr>stdout = [], fs = [''/home/u'' \<mapsto> Directory, ''/opt/tool'' \<mapsto> Directory]\<rparr> = Inr w'
     \<and> fs w' ''/opt/tool/output/Empty.txt'' = Some (Regular [])"
proof -
  let ?ev = "\<lparr>askdirectory = Str ''/data/Empty'', listing = Dir [(''sub'', Dir [])],
        script_file = ''/opt/tool/creepdir.py'', getcwd = ''/home/u'',
        lowering = map lower_chr\<rparr>"
  let ?w = "\<lparr>stdout = [], fs = [''/home/u'' \<mapsto> Directory, ''/opt/tool'' \<mapsto> Directory]\<rparr>"
  have a: "askdirectory ?ev = Str ''/data/Empty''" by simp
  have b: "''/data/Empty'' \<noteq> []" by simp
  have e: "enumerated ''/data/Empty'' (listing ?ev) = []" by code_simp
  have c: "can_write_report ?ev ''/data/Empty'' ?w ''/opt/tool'' []" by code_simp
  have p: "output_path_of ?ev ''/data/Empty'' = ''/opt/tool/output/Empty.txt''" by code_simp
  from empty_folder_empty_report [OF a b e c] show ?thesis unfolding p by blast
qed

end
